theory Spec2Isabelle
  imports Main
begin

section \<open>The module \<open>vyos_api_command\<close>: data\<close>

text \<open>
  The development follows \<^verbatim>\<open>plugins/modules/vyos_api_command.py\<close>: the command
  check \<^verbatim>\<open>parse_commands\<close> and the poll loop of \<^verbatim>\<open>main\<close>. A response is the list
  of output strings that one call of \<^verbatim>\<open>run_api_commands\<close> returns.
\<close>

type_synonym response = "string list"

text \<open>
  Python exceptions that can leave \<^verbatim>\<open>main\<close>. \<^verbatim>\<open>AttributeError\<close> is the one that the
  \<^verbatim>\<open>try\<close> around the compilation of \<^verbatim>\<open>wait_for\<close> catches; \<^verbatim>\<open>time.sleep\<close> raises
  \<^verbatim>\<open>ValueError\<close> on a negative length; reading the local \<^verbatim>\<open>responses\<close> before the
  loop has assigned it raises \<^verbatim>\<open>UnboundLocalError\<close>; \<open>Exception\<close> stands for every
  other exception of a collaborator.
\<close>

datatype exn =
    AttributeError string
  | ValueError string
  | UnboundLocalError string
  | Exception string

text \<open>
  The entries of \<^verbatim>\<open>module.params\<close> that \<^verbatim>\<open>parse_commands\<close> and the loop of \<^verbatim>\<open>main\<close>
  use, and \<^verbatim>\<open>module.check_mode\<close>. \<^verbatim>\<open>wait_for\<close> has no default, so it may be \<^verbatim>\<open>None\<close>;
  \<^verbatim>\<open>retries\<close> and \<^verbatim>\<open>interval\<close> are Python ints without a lower bound in the argument
  spec; \<^verbatim>\<open>match\<close> is the string that the loop compares with \<^verbatim>\<open>"any"\<close>. The connection
  parameters (host, port, key, ...) reach the transport through \<^verbatim>\<open>module\<close> only.
\<close>

record params =
  commands :: "string list"
  wait_for :: "string list option"
  match :: string
  retries :: int
  interval :: int
  check_mode :: bool

text \<open>
  A \<^verbatim>\<open>Conditional\<close> object. The class comes from \<^verbatim>\<open>ansible.netcommon\<close>; the module
  uses its constructor, its call and its attribute \<^verbatim>\<open>raw\<close>. \<^verbatim>\<open>list.remove\<close> compares
  objects, so each object carries its position in \<^verbatim>\<open>wait_for\<close> as identity.
\<close>

record 'c conditional =
  ident :: nat
  raw :: string
  compiled :: 'c

text \<open>
  The collaborators of the module, as parameters:
  \<^item> \<open>Conditional\<close>: the constructor \<^verbatim>\<open>Conditional(c)\<close>, which may raise;
  \<^item> \<open>call\<close>: the evaluation \<^verbatim>\<open>item(responses)\<close>, which may raise;
  \<^item> \<open>transport\<close>: what the device answers to the \<open>n\<close>-th request of this run
    (counted from 0), or the exception of the request;
  \<^item> \<open>to_lines\<close>: the line splitting of the result.
\<close>

record 'c env =
  Conditional :: "string \<Rightarrow> exn + 'c"
  call :: "'c \<Rightarrow> response \<Rightarrow> exn + bool"
  transport :: "nat \<Rightarrow> string list \<Rightarrow> exn + response"
  to_lines :: "response \<Rightarrow> string list list"

text \<open>
  What a run does to the outside, in order: the \<open>n\<close>-th call of \<^verbatim>\<open>run_api_commands\<close>
  with its command list, the evaluation of the conditional with a given identity in
  attempt \<open>n\<close> with its result, and a call of \<^verbatim>\<open>time.sleep\<close> with its argument.
\<close>

datatype event =
    Dispatch nat "string list"
  | Eval nat nat "exn + bool"
  | Sleep int

text \<open>
  The result dictionary passed to \<^verbatim>\<open>module.exit_json\<close>, and the three ways a run ends:
  \<^verbatim>\<open>exit_json\<close>, \<^verbatim>\<open>fail_json\<close> (with the message and, when given, \<^verbatim>\<open>failed_conditions\<close>),
  or an exception that nothing catches.
\<close>

record result =
  changed :: bool
  warnings :: "string list"
  stdout :: response
  stdout_lines :: "string list list"

datatype outcome =
    Exit_json result
  | Fail_json string "string list option"
  | Raised exn

section \<open>\<^verbatim>\<open>parse_commands\<close>\<close>

definition API_COMMANDS :: "string list" where
  "API_COMMANDS = [''show'', ''generate'', ''set'', ''delete'', ''comment'']"

text \<open>\<^verbatim>\<open>s.startswith(p)\<close> for a string and \<^verbatim>\<open>s.startswith(tuple(ps))\<close> for a tuple.\<close>

definition startswith :: "string \<Rightarrow> string \<Rightarrow> bool" where
  "startswith s p = (take (length p) s = p)"

definition startswith_any :: "string \<Rightarrow> string list \<Rightarrow> bool" where
  "startswith_any s ps = list_ex (startswith s) ps"

definition not_allowed_msg :: "string \<Rightarrow> string" where
  "not_allowed_msg item = [CHR 0x27] @ item @ [CHR 0x27] @ '' - is not an allowed command''"

definition check_mode_warning :: "string \<Rightarrow> string" where
  "check_mode_warning item =
     ''Only show commands are supported when using check mode, not executing '' @ item"

text \<open>
  The loop of \<^verbatim>\<open>parse_commands\<close> runs over a copy of the list (\<^verbatim>\<open>list(commands)\<close>) and
  removes from the list itself: the first argument is what is left of the copy, the
  second the list \<^verbatim>\<open>commands\<close>, the third the list \<^verbatim>\<open>warnings\<close>. \<^verbatim>\<open>module.fail_json\<close>
  ends the run, so its message is the \<open>Inl\<close> result.
\<close>

fun parse_loop :: "bool \<Rightarrow> string list \<Rightarrow> string list \<Rightarrow> string list
    \<Rightarrow> string + (string list \<times> string list)" where
  "parse_loop cm [] cmds ws = Inr (cmds, ws)"
| "parse_loop cm (item # rest) cmds ws =
     (if \<not> startswith_any item API_COMMANDS then Inl (not_allowed_msg item)
      else if cm \<and> \<not> startswith item ''show''
        then parse_loop cm rest (remove1 item cmds) (ws @ [check_mode_warning item])
      else parse_loop cm rest cmds ws)"

definition parse_commands :: "params \<Rightarrow> string list \<Rightarrow> string + (string list \<times> string list)" where
  "parse_commands module ws = parse_loop (check_mode module) (commands module) (commands module) ws"

section \<open>The poll loop of \<^verbatim>\<open>main\<close>\<close>

text \<open>Modelled from the spec: the body of \<^verbatim>\<open>run_api_commands\<close> (in the collection's
  \<^verbatim>\<open>module_utils\<close>) is not part of the sources at hand. Following the interface
  \<^verbatim>\<open>executeCommands(batch) -> Response\<close>, which fails with a transport error, the
  \<open>n\<close>-th call returns the device's answer or raises; what the flag \<^verbatim>\<open>direct_fail\<close>
  changes is unknown, and \<^verbatim>\<open>main\<close> always passes \<^verbatim>\<open>False\<close>.
\<close>

definition run_api_commands :: "'c env \<Rightarrow> nat \<Rightarrow> string list \<Rightarrow> bool \<Rightarrow> exn + response" where
  "run_api_commands E n cmds direct_fail = transport E n cmds"

text \<open>
  \<^verbatim>\<open>[Conditional(c) for c in wait_for]\<close>: the expressions are compiled in order, and
  the first exception ends the comprehension. The number is the position of the next
  expression.
\<close>

fun compile_all :: "'c env \<Rightarrow> nat \<Rightarrow> string list \<Rightarrow> exn + 'c conditional list" where
  "compile_all E i [] = Inr []"
| "compile_all E i (c # cs) =
     (case Conditional E c of
        Inl e \<Rightarrow> Inl e
      | Inr k \<Rightarrow>
          (case compile_all E (Suc i) cs of
             Inl e \<Rightarrow> Inl e
           | Inr ks \<Rightarrow> Inr (\<lparr>ident = i, raw = c, compiled = k\<rparr> # ks)))"

text \<open>
  The inner loop \<^verbatim>\<open>for item in list(conditionals)\<close> of attempt \<open>n\<close>: it runs over a
  copy (fourth argument) and changes \<^verbatim>\<open>conditionals\<close> (fifth argument). It returns the
  events and either the exception of an evaluation or the new \<^verbatim>\<open>conditionals\<close>.
\<close>

fun eval_loop :: "'c env \<Rightarrow> string \<Rightarrow> nat \<Rightarrow> response \<Rightarrow> 'c conditional list
    \<Rightarrow> 'c conditional list \<Rightarrow> event list \<times> (exn + 'c conditional list)" where
  "eval_loop E m n responses [] conditionals = ([], Inr conditionals)"
| "eval_loop E m n responses (item # rest) conditionals =
     (case call E (compiled item) responses of
        Inl e \<Rightarrow> ([Eval n (ident item) (Inl e)], Inl e)
      | Inr b \<Rightarrow>
          if b then
            (if m = ''any'' then ([Eval n (ident item) (Inr True)], Inr [])
             else
               (case eval_loop E m n responses rest (remove1 item conditionals) of
                  (tr, r) \<Rightarrow> (Eval n (ident item) (Inr True) # tr, r)))
          else
            (case eval_loop E m n responses rest conditionals of
               (tr, r) \<Rightarrow> (Eval n (ident item) (Inr False) # tr, r)))"

text \<open>\<^verbatim>\<open>time.sleep(interval)\<close>: a negative argument raises \<^verbatim>\<open>ValueError\<close>.\<close>

definition sleep :: "int \<Rightarrow> exn + unit" where
  "sleep secs = (if secs < 0 then Inl (ValueError ''sleep length must be non-negative'') else Inr ())"

text \<open>
  The loop \<^verbatim>\<open>for item in range(retries)\<close>: the third argument is what is left of the
  range, the fourth \<^verbatim>\<open>conditionals\<close>, the fifth the local \<^verbatim>\<open>responses\<close> (\<open>None\<close> while
  unassigned). It returns the events, and either the exception that left the loop or
  the two locals after it.
\<close>

fun poll_loop :: "'c env \<Rightarrow> params \<Rightarrow> string list \<Rightarrow> nat list \<Rightarrow> 'c conditional list
    \<Rightarrow> response option \<Rightarrow> event list \<times> (exn + ('c conditional list \<times> response option))" where
  "poll_loop E module cmds [] conditionals responses = ([], Inr (conditionals, responses))"
| "poll_loop E module cmds (n # ns) conditionals responses =
     (case run_api_commands E n cmds False of
        Inl e \<Rightarrow> ([Dispatch n cmds], Inl e)
      | Inr responses' \<Rightarrow>
          (case eval_loop E (match module) n responses' conditionals conditionals of
             (tr, Inl e) \<Rightarrow> (Dispatch n cmds # tr, Inl e)
           | (tr, Inr conditionals') \<Rightarrow>
               if conditionals' = [] then (Dispatch n cmds # tr, Inr ([], Some responses'))
               else
                 (case sleep (interval module) of
                    Inl e \<Rightarrow> (Dispatch n cmds # tr @ [Sleep (interval module)], Inl e)
                  | Inr _ \<Rightarrow>
                      (case poll_loop E module cmds ns conditionals' (Some responses') of
                         (tr', r) \<Rightarrow> (Dispatch n cmds # tr @ Sleep (interval module) # tr', r)))))"

text \<open>\<^verbatim>\<open>range(retries)\<close>: empty when \<^verbatim>\<open>retries\<close> is zero or negative.\<close>

definition range_int :: "int \<Rightarrow> nat list" where
  "range_int k = [0..<nat k]"

text \<open>\<^verbatim>\<open>module.params["wait_for"] or list()\<close>.\<close>

definition wait_for_or_list :: "params \<Rightarrow> string list" where
  "wait_for_or_list module = (case wait_for module of None \<Rightarrow> [] | Some w \<Rightarrow> w)"

definition unmet_msg :: string where
  "unmet_msg = ''One or more conditional statements have not been satisfied''"

text \<open>
  \<^verbatim>\<open>main\<close>, from the call of \<^verbatim>\<open>parse_commands\<close> on. It returns the events of the run
  and how the run ends. \<^verbatim>\<open>to_text(exc)\<close> is the message of the exception.
\<close>

definition main :: "'c env \<Rightarrow> params \<Rightarrow> event list \<times> outcome" where
  "main E module =
     (case parse_commands module [] of
        Inl msg \<Rightarrow> ([], Fail_json msg None)
      | Inr (cmds, ws) \<Rightarrow>
          (case compile_all E 0 (wait_for_or_list module) of
             Inl (AttributeError msg) \<Rightarrow> ([], Fail_json msg None)
           | Inl e \<Rightarrow> ([], Raised e)
           | Inr conditionals \<Rightarrow>
               (case poll_loop E module cmds (range_int (retries module)) conditionals None of
                  (tr, Inl e) \<Rightarrow> (tr, Raised e)
                | (tr, Inr (conditionals', responses)) \<Rightarrow>
                    if conditionals' \<noteq> [] then
                      (tr, Fail_json unmet_msg (Some (map raw conditionals')))
                    else
                      (case responses of
                         None \<Rightarrow> (tr, Raised (UnboundLocalError ''responses''))
                       | Some rs \<Rightarrow>
                           (tr, Exit_json \<lparr>changed = False, warnings = ws, stdout = rs,
                                  stdout_lines = to_lines E rs\<rparr>)))))"

text \<open>Counting the calls of the transport and of \<^verbatim>\<open>time.sleep\<close> in a run.\<close>

fun is_Dispatch :: "event \<Rightarrow> bool" where
  "is_Dispatch (Dispatch n cmds) = True"
| "is_Dispatch _ = False"

fun is_Sleep :: "event \<Rightarrow> bool" where
  "is_Sleep (Sleep s) = True"
| "is_Sleep _ = False"

fun is_pass_of :: "nat \<Rightarrow> event \<Rightarrow> bool" where
  "is_pass_of i (Eval n j r) = (j = i \<and> r = Inr True)"
| "is_pass_of i _ = False"

text \<open>The conditional with identity \<open>i\<close> has evaluated true somewhere in the run.\<close>

definition passed :: "event list \<Rightarrow> nat \<Rightarrow> bool" where
  "passed tr i = list_ex (is_pass_of i) tr"

text \<open>
  The conditional with identity \<open>i\<close> is evaluated somewhere in the run; and it is
  evaluated again after an evaluation of it that returned true.
\<close>

fun is_eval_of :: "nat \<Rightarrow> event \<Rightarrow> bool" where
  "is_eval_of i (Eval n j r) = (j = i)"
| "is_eval_of i _ = False"

definition evaluated :: "event list \<Rightarrow> nat \<Rightarrow> bool" where
  "evaluated tr i = list_ex (is_eval_of i) tr"

fun reevaluated :: "nat \<Rightarrow> event list \<Rightarrow> bool" where
  "reevaluated i [] = False"
| "reevaluated i (ev # tr) = ((is_pass_of i ev \<and> evaluated tr i) \<or> reevaluated i tr)"

text \<open>
  The expressions of \<^verbatim>\<open>wait_for\<close>, in order, whose conditional has not evaluated true in
  the run.
\<close>

definition still_pending :: "event list \<Rightarrow> string list \<Rightarrow> string list" where
  "still_pending tr es = map (\<lambda>i. es ! i) (filter (\<lambda>i. \<not> passed tr i) [0..<length es])"

fun is_Exit :: "outcome \<Rightarrow> bool" where
  "is_Exit (Exit_json res) = True"
| "is_Exit _ = False"

definition dispatches :: "event list \<Rightarrow> nat" where
  "dispatches tr = length (filter is_Dispatch tr)"

definition sleeps :: "event list \<Rightarrow> nat" where
  "sleeps tr = length (filter is_Sleep tr)"

section \<open>Sample collaborators for concrete runs\<close>

text \<open>
  A small stand-in for the collaborators, used only to run the module on concrete
  inputs: a conditional \<open>Eq i lit\<close> reads \<^verbatim>\<open>result[i] eq lit\<close> and raises when the
  index is out of range; the constructor knows three expressions and raises
  \<^verbatim>\<open>AttributeError\<close> on any other; the device answers the \<open>n\<close>-th request with the
  \<open>n\<close>-th entry of a given list.
\<close>

datatype sample_cond = Eq nat string

definition sample_table :: "(string \<times> sample_cond) list" where
  "sample_table =
     [(''result[0] eq up'', Eq 0 ''up''),
      (''result[1] eq up'', Eq 1 ''up''),
      (''result[5] eq x'', Eq 5 ''x'')]"

definition sample_Conditional :: "string \<Rightarrow> exn + sample_cond" where
  "sample_Conditional c =
     (case map_of sample_table c of
        None \<Rightarrow> Inl (AttributeError ''unknown operator'')
      | Some k \<Rightarrow> Inr k)"

fun sample_call :: "sample_cond \<Rightarrow> response \<Rightarrow> exn + bool" where
  "sample_call (Eq i lit) rs =
     (if i < length rs then Inr (rs ! i = lit)
      else Inl (Exception ''unable to apply conditional to result''))"

definition device :: "(exn + response) list \<Rightarrow> nat \<Rightarrow> string list \<Rightarrow> exn + response" where
  "device answers n cmds =
     (if n < length answers then answers ! n else Inl (Exception ''no answer''))"

definition sample_env :: "(exn + response) list \<Rightarrow> sample_cond env" where
  "sample_env answers =
     \<lparr>Conditional = sample_Conditional, call = sample_call,
      transport = device answers, to_lines = map (\<lambda>s. [s])\<rparr>"

text \<open>Inputs of the concrete runs.\<close>

definition show_version :: "string list" where
  "show_version = [''show version'']"

definition poll_params :: "string list option \<Rightarrow> string \<Rightarrow> int \<Rightarrow> params" where
  "poll_params w m r =
     \<lparr>commands = show_version, wait_for = w, match = m, retries = r, interval = 1,
      check_mode = False\<rparr>"

definition check_params :: "string list \<Rightarrow> bool \<Rightarrow> params" where
  "check_params cmds cm =
     \<lparr>commands = cmds, wait_for = None, match = ''all'', retries = 10, interval = 1,
      check_mode = cm\<rparr>"

section \<open>The shape of a run\<close>

lemma remove1_filter_ident:
  assumes "distinct (map ident cs)"
  shows "remove1 c cs = filter (\<lambda>x. x \<noteq> c) cs"
proof -
  from assms have "distinct cs" by (rule distinct_map [THEN iffD1, THEN conjunct1])
  then have "remove1 c cs = removeAll c cs" by (rule distinct_remove1_removeAll)
  then show ?thesis by (simp add: removeAll_filter_not_eq) (metis)
qed

lemma distinct_ident_remove1:
  "distinct (map ident cs) \<Longrightarrow> distinct (map ident (remove1 c cs))"
  by (simp add: remove1_filter_ident distinct_map_filter)

lemma eval_loop_Cons_cases [consumes 1, case_names raised any_pass all_pass unmet]:
  assumes "eval_loop E m n rs (item # rest) conds = (tr, r)"
  obtains
    e where "call E (compiled item) rs = Inl e" "tr = [Eval n (ident item) (Inl e)]" "r = Inl e"
  | "call E (compiled item) rs = Inr True" "m = ''any''"
      "tr = [Eval n (ident item) (Inr True)]" "r = Inr []"
  | tr' where "call E (compiled item) rs = Inr True" "m \<noteq> ''any''"
      "eval_loop E m n rs rest (remove1 item conds) = (tr', r)"
      "tr = Eval n (ident item) (Inr True) # tr'"
  | tr' where "call E (compiled item) rs = Inr False"
      "eval_loop E m n rs rest conds = (tr', r)"
      "tr = Eval n (ident item) (Inr False) # tr'"
  using assms by (auto split: sum.splits prod.splits if_splits)

lemma eval_loop_events:
  "eval_loop E m n rs items conds = (tr, r) \<Longrightarrow> ev \<in> set tr
     \<Longrightarrow> \<exists>c res. c \<in> set items \<and> ev = Eval n (ident c) res"
proof (induction items arbitrary: conds tr)
  case Nil then show ?case by simp
next
  case (Cons item rest)
  from Cons.prems(1) show ?case
  proof (cases rule: eval_loop_Cons_cases)
    case (all_pass tr')
    with Cons.IH[OF all_pass(3)] Cons.prems(2) show ?thesis by auto
  next
    case (unmet tr')
    with Cons.IH[OF unmet(2)] Cons.prems(2) show ?thesis by auto
  qed (use Cons.prems(2) in auto)
qed

lemma eval_loop_subset:
  "eval_loop E m n rs items conds = (tr, Inr conds') \<Longrightarrow> set conds' \<subseteq> set conds"
proof (induction items arbitrary: conds tr)
  case Nil then show ?case by simp
next
  case (Cons item rest)
  from Cons.prems(1) show ?case
  proof (cases rule: eval_loop_Cons_cases)
    case (all_pass tr')
    from Cons.IH[OF all_pass(3)] set_remove1_subset[of item conds] show ?thesis by blast
  next
    case (unmet tr')
    from Cons.IH[OF unmet(2)] show ?thesis .
  qed simp_all
qed

lemma eval_loop_distinct:
  "eval_loop E m n rs items conds = (tr, Inr conds') \<Longrightarrow> distinct (map ident conds)
     \<Longrightarrow> distinct (map ident conds')"
proof (induction items arbitrary: conds tr)
  case Nil then show ?case by simp
next
  case (Cons item rest)
  from Cons.prems(1) show ?case
  proof (cases rule: eval_loop_Cons_cases)
    case (all_pass tr')
    from Cons.IH[OF all_pass(3)] Cons.prems(2) show ?thesis
      by (simp add: distinct_ident_remove1)
  next
    case (unmet tr')
    from Cons.IH[OF unmet(2)] Cons.prems(2) show ?thesis by simp
  qed simp_all
qed

lemma compile_all_idents:
  "compile_all E i es = Inr cs \<Longrightarrow> map ident cs = [i..<i + length es] \<and> map raw cs = es"
proof (induction es arbitrary: i cs)
  case Nil then show ?case by simp
next
  case (Cons c es)
  from Cons.prems obtain k ks where k: "Conditional E c = Inr k"
    and ks: "compile_all E (Suc i) es = Inr ks"
    and cs: "cs = \<lparr>ident = i, raw = c, compiled = k\<rparr> # ks"
    by (auto split: sum.splits)
  have "[i..<i + length (c # es)] = i # [Suc i..<Suc i + length es]"
    using upt_conv_Cons[of i "i + Suc (length es)"] by simp
  with Cons.IH[OF ks] cs show ?case by simp
qed

lemma compile_all_Inl:
  "c \<in> set es \<Longrightarrow> Conditional E c = Inl e \<Longrightarrow> \<exists>e'. compile_all E i es = Inl e'"
proof (induction es arbitrary: i)
  case Nil then show ?case by simp
next
  case (Cons a es)
  show ?case
  proof (cases "Conditional E a")
    case (Inl e') then show ?thesis by simp
  next
    case (Inr k)
    with Cons.prems have "c \<in> set es" by auto
    from Cons.IH[OF this Cons.prems(2), of "Suc i"] Inr show ?thesis by auto
  qed
qed

lemma poll_loop_Cons_cases [consumes 1, case_names transport_fail eval_fail finished sleep_fail retry]:
  assumes "poll_loop E module cmds (n # ns) conds resp = (tr, r)"
  obtains
    e where "run_api_commands E n cmds False = Inl e" "tr = [Dispatch n cmds]" "r = Inl e"
  | rs tre e where "run_api_commands E n cmds False = Inr rs"
      "eval_loop E (match module) n rs conds conds = (tre, Inl e)"
      "tr = Dispatch n cmds # tre" "r = Inl e"
  | rs tre where "run_api_commands E n cmds False = Inr rs"
      "eval_loop E (match module) n rs conds conds = (tre, Inr [])"
      "tr = Dispatch n cmds # tre" "r = Inr ([], Some rs)"
  | rs tre conds' e where "run_api_commands E n cmds False = Inr rs"
      "eval_loop E (match module) n rs conds conds = (tre, Inr conds')" "conds' \<noteq> []"
      "sleep (interval module) = Inl e"
      "tr = Dispatch n cmds # tre @ [Sleep (interval module)]" "r = Inl e"
  | rs tre conds' tr' where "run_api_commands E n cmds False = Inr rs"
      "eval_loop E (match module) n rs conds conds = (tre, Inr conds')" "conds' \<noteq> []"
      "sleep (interval module) = Inr ()"
      "poll_loop E module cmds ns conds' (Some rs) = (tr', r)"
      "tr = Dispatch n cmds # tre @ Sleep (interval module) # tr'"
  using assms by (auto split: sum.splits prod.splits if_splits)

lemma eval_loop_no_Dispatch:
  "eval_loop E m n rs items conds = (tr, r) \<Longrightarrow> filter is_Dispatch tr = [] \<and> filter is_Sleep tr = []"
  by (auto simp: filter_empty_conv dest: eval_loop_events)

lemma poll_loop_dispatches:
  "poll_loop E module cmds ns conds resp = (tr, r) \<Longrightarrow> dispatches tr \<le> length ns"
proof (induction ns arbitrary: conds resp tr)
  case Nil then show ?case by (simp add: dispatches_def)
next
  case (Cons n ns)
  from Cons.prems show ?case
  proof (cases rule: poll_loop_Cons_cases)
    case (retry rs tre conds' tr')
    with Cons.IH[OF retry(5)] show ?thesis
      by (simp add: dispatches_def eval_loop_no_Dispatch)
  qed (simp_all add: dispatches_def eval_loop_no_Dispatch)
qed

lemma poll_loop_Dispatch_mem:
  "poll_loop E module cmds ns conds resp = (tr, r) \<Longrightarrow> Dispatch k c \<in> set tr
     \<Longrightarrow> k \<in> set ns \<and> c = cmds"
proof (induction ns arbitrary: conds resp tr)
  case Nil then show ?case by simp
next
  case (Cons n ns)
  from Cons.prems(1) show ?case
  proof (cases rule: poll_loop_Cons_cases)
    case (retry rs tre conds' tr')
    with Cons.IH[OF retry(5)] Cons.prems(2) show ?thesis
      by (auto dest: eval_loop_events)
  qed (use Cons.prems(2) in \<open>auto dest: eval_loop_events\<close>)
qed

lemma main_cases [consumes 1, case_names parse_fail compile_attr compile_raise poll_raise
    unmet unbound exit]:
  assumes "main E module = (tr, out)"
  obtains
    msg where "parse_commands module [] = Inl msg" "tr = []" "out = Fail_json msg None"
  | cmds ws msg where "parse_commands module [] = Inr (cmds, ws)"
      "compile_all E 0 (wait_for_or_list module) = Inl (AttributeError msg)"
      "tr = []" "out = Fail_json msg None"
  | cmds ws e where "parse_commands module [] = Inr (cmds, ws)"
      "compile_all E 0 (wait_for_or_list module) = Inl e" "tr = []" "out = Raised e"
  | cmds ws conds e where "parse_commands module [] = Inr (cmds, ws)"
      "compile_all E 0 (wait_for_or_list module) = Inr conds"
      "poll_loop E module cmds (range_int (retries module)) conds None = (tr, Inl e)"
      "out = Raised e"
  | cmds ws conds conds' resp where "parse_commands module [] = Inr (cmds, ws)"
      "compile_all E 0 (wait_for_or_list module) = Inr conds"
      "poll_loop E module cmds (range_int (retries module)) conds None = (tr, Inr (conds', resp))"
      "conds' \<noteq> []" "out = Fail_json unmet_msg (Some (map raw conds'))"
  | cmds ws conds where "parse_commands module [] = Inr (cmds, ws)"
      "compile_all E 0 (wait_for_or_list module) = Inr conds"
      "poll_loop E module cmds (range_int (retries module)) conds None = (tr, Inr ([], None))"
      "out = Raised (UnboundLocalError ''responses'')"
  | cmds ws conds rs where "parse_commands module [] = Inr (cmds, ws)"
      "compile_all E 0 (wait_for_or_list module) = Inr conds"
      "poll_loop E module cmds (range_int (retries module)) conds None = (tr, Inr ([], Some rs))"
      "out = Exit_json \<lparr>changed = False, warnings = ws, stdout = rs,
         stdout_lines = to_lines E rs\<rparr>"
  using assms unfolding main_def
  by (auto split: sum.splits prod.splits if_splits option.splits exn.splits)

lemma main_poll [consumes 1]:
  assumes "main E module = (tr, out)"
  obtains "tr = []"
  | cmds ws conds r where "parse_commands module [] = Inr (cmds, ws)"
      "compile_all E 0 (wait_for_or_list module) = Inr conds"
      "poll_loop E module cmds (range_int (retries module)) conds None = (tr, r)"
  using assms by (cases rule: main_cases) auto

section \<open>The retry budget\<close>

text \<open>
  Claim C8. In every run the number of calls of \<^verbatim>\<open>run_api_commands\<close> is at most
  \<^verbatim>\<open>retries\<close> (none at all when \<^verbatim>\<open>retries\<close> is zero or negative), and every call belongs
  to one of the attempts \<open>0, ..., retries - 1\<close> of \<^verbatim>\<open>range(retries)\<close>, that is, to the
  attempts 1 to \<^verbatim>\<open>retries\<close> counted from one.
\<close>

theorem dispatches_le_retries:
  assumes "main E module = (tr, out)"
  shows "int (dispatches tr) \<le> max 0 (retries module)
    \<and> (\<forall>n c. Dispatch n c \<in> set tr \<longrightarrow> int n < retries module)"
  using assms
proof (cases rule: main_poll)
  case 1
  then show ?thesis by (simp add: dispatches_def)
next
  case (2 cmds ws conds r)
  from poll_loop_dispatches[OF 2(3)]
  have "int (dispatches tr) \<le> max 0 (retries module)"
    by (simp add: range_int_def)
  moreover have "int n < retries module" if "Dispatch n c \<in> set tr" for n c
    using poll_loop_Dispatch_mem[OF 2(3) that] by (auto simp: range_int_def)
  ultimately show ?thesis by blast
qed

theorem dispatches_le_retries_witness:
  "main (sample_env [Inr [''down''], Inr [''down''], Inr [''up'']])
      (poll_params (Some [''result[0] eq up'']) ''all'' 2)
    = ([Dispatch 0 show_version, Eval 0 0 (Inr False), Sleep 1,
        Dispatch 1 show_version, Eval 1 0 (Inr False), Sleep 1],
       Fail_json unmet_msg (Some [''result[0] eq up'']))
   \<and> int (dispatches [Dispatch 0 show_version, Eval 0 0 (Inr False), Sleep 1,
        Dispatch 1 show_version, Eval 1 0 (Inr False), Sleep 1]) \<le> max 0 2
   \<and> Dispatch 1 show_version \<in> set [Dispatch 0 show_version, Eval 0 0 (Inr False), Sleep 1,
        Dispatch 1 show_version, Eval 1 0 (Inr False), Sleep 1]
   \<and> int 1 < 2"
proof -
  have run: "main (sample_env [Inr [''down''], Inr [''down''], Inr [''up'']])
      (poll_params (Some [''result[0] eq up'']) ''all'' 2)
    = ([Dispatch 0 show_version, Eval 0 0 (Inr False), Sleep 1,
        Dispatch 1 show_version, Eval 1 0 (Inr False), Sleep 1],
       Fail_json unmet_msg (Some [''result[0] eq up'']))"
    by code_simp
  from dispatches_le_retries[OF run] run show ?thesis
    by (simp add: poll_params_def)
qed

section \<open>Sleeping\<close>

lemma poll_loop_exhausted:
  "poll_loop E module cmds ns conds resp = (tr, Inr (conds', resp')) \<Longrightarrow> conds' \<noteq> []
     \<Longrightarrow> dispatches tr = length ns \<and> sleeps tr = length ns"
proof (induction ns arbitrary: conds resp tr)
  case Nil then show ?case by (simp add: dispatches_def sleeps_def)
next
  case (Cons n ns)
  from Cons.prems(1) show ?case
  proof (cases rule: poll_loop_Cons_cases)
    case (retry rs tre conds'' tr')
    with Cons.IH[OF retry(5) Cons.prems(2)] show ?thesis
      by (simp add: dispatches_def sleeps_def eval_loop_no_Dispatch)
  qed (use Cons.prems(2) in simp_all)
qed

lemma exhausted_sleeps_eq_dispatches:
  assumes "main E module = (tr, Fail_json unmet_msg (Some fc))"
  shows "sleeps tr = dispatches tr \<and> int (dispatches tr) = max 0 (retries module)"
  using assms
proof (cases rule: main_cases)
  case (unmet cmds ws conds conds' resp)
  from poll_loop_exhausted[OF unmet(3,4)] show ?thesis by (simp add: range_int_def)
qed simp_all

text \<open>
  Claim C1. The claim says that a run that exhausts its retries with conditions pending
  sleeps one time less than it dispatches, never after the final attempt. The loop
  calls \<^verbatim>\<open>time.sleep\<close> at the end of every attempt that leaves a condition pending,
  the last one included: with \<^verbatim>\<open>retries = 3\<close> and a condition that never holds, the run
  makes three dispatches and three sleeps, the third after the final attempt.
\<close>

theorem sleep_after_final_attempt:
  "main (sample_env [Inr [''down''], Inr [''down''], Inr [''down'']])
      (poll_params (Some [''result[0] eq up'']) ''all'' 3)
    = ([Dispatch 0 show_version, Eval 0 0 (Inr False), Sleep 1,
        Dispatch 1 show_version, Eval 1 0 (Inr False), Sleep 1,
        Dispatch 2 show_version, Eval 2 0 (Inr False), Sleep 1],
       Fail_json unmet_msg (Some [''result[0] eq up'']))
   \<and> dispatches (fst (main (sample_env [Inr [''down''], Inr [''down''], Inr [''down'']])
        (poll_params (Some [''result[0] eq up'']) ''all'' 3))) = 3
   \<and> sleeps (fst (main (sample_env [Inr [''down''], Inr [''down''], Inr [''down'']])
        (poll_params (Some [''result[0] eq up'']) ''all'' 3))) = 3
   \<and> last (fst (main (sample_env [Inr [''down''], Inr [''down''], Inr [''down'']])
        (poll_params (Some [''result[0] eq up'']) ''all'' 3))) = Sleep 1"
proof -
  have run: "main (sample_env [Inr [''down''], Inr [''down''], Inr [''down'']])
      (poll_params (Some [''result[0] eq up'']) ''all'' 3)
    = ([Dispatch 0 show_version, Eval 0 0 (Inr False), Sleep 1,
        Dispatch 1 show_version, Eval 1 0 (Inr False), Sleep 1,
        Dispatch 2 show_version, Eval 2 0 (Inr False), Sleep 1],
       Fail_json unmet_msg (Some [''result[0] eq up'']))"
    by code_simp
  show ?thesis unfolding run by (simp add: dispatches_def sleeps_def)
qed

lemma first_attempt_success_no_sleep:
  assumes "main E module = (tr, Exit_json res)" and "dispatches tr = 1"
  shows "sleeps tr = 0"
  using assms(1)
proof (cases rule: main_cases)
  case (exit cmds ws conds rs)
  show ?thesis
  proof (cases "range_int (retries module)")
    case Nil
    with exit(3) show ?thesis by (simp add: sleeps_def)
  next
    case (Cons n ns)
    from exit(3)[unfolded Cons] show ?thesis
    proof (cases rule: poll_loop_Cons_cases)
      case (finished rs' tre)
      then show ?thesis by (simp add: sleeps_def eval_loop_no_Dispatch)
    next
      case (retry rs' tre conds' tr')
      from retry(3,5) have "tr' \<noteq> [] \<and> is_Dispatch (hd tr')"
        by (cases ns) (auto split: sum.splits prod.splits if_splits)
      then have "filter is_Dispatch tr' \<noteq> []"
        by (cases tr') auto
      with retry(6) assms(2) show ?thesis
        by (simp add: dispatches_def eval_loop_no_Dispatch)
    qed simp_all
  qed
qed simp_all

section \<open>No conditions\<close>

text \<open>
  Claim C2, as stated, fails for \<^verbatim>\<open>retries = 0\<close>: the loop over \<^verbatim>\<open>range(0)\<close> makes no
  dispatch, and the run does not end successfully.
\<close>

theorem zero_retries_no_conditions:
  "main (sample_env [Inr [''VyOS 1.3.0'']]) (poll_params None ''all'' 0)
     = ([], Raised (UnboundLocalError ''responses''))
   \<and> dispatches (fst (main (sample_env [Inr [''VyOS 1.3.0'']]) (poll_params None ''all'' 0))) \<noteq> 1
   \<and> \<not> is_Exit (snd (main (sample_env [Inr [''VyOS 1.3.0'']]) (poll_params None ''all'' 0)))"
proof -
  have run: "main (sample_env [Inr [''VyOS 1.3.0'']]) (poll_params None ''all'' 0)
     = ([], Raised (UnboundLocalError ''responses''))"
    by code_simp
  show ?thesis unfolding run by (simp add: dispatches_def)
qed

text \<open>
  Claim C2, amended. When \<^verbatim>\<open>wait_for\<close> is empty or absent, the commands pass
  \<^verbatim>\<open>parse_commands\<close> and \<^verbatim>\<open>retries\<close> is at least 1, the run makes exactly one
  dispatch, whatever the value of \<^verbatim>\<open>retries\<close>: when the dispatch returns, the run ends
  with \<^verbatim>\<open>exit_json\<close> and reports that response; when it raises, the run ends with that
  exception.
\<close>

theorem no_conditions_one_dispatch:
  assumes "wait_for_or_list module = []"
    and "parse_commands module [] = Inr (cmds, ws)"
    and "1 \<le> retries module"
  shows "main E module =
    (case run_api_commands E 0 cmds False of
       Inl e \<Rightarrow> ([Dispatch 0 cmds], Raised e)
     | Inr rs \<Rightarrow>
         ([Dispatch 0 cmds],
          Exit_json \<lparr>changed = False, warnings = ws, stdout = rs, stdout_lines = to_lines E rs\<rparr>))"
proof -
  from assms(3) have "range_int (retries module) = 0 # [Suc 0..<nat (retries module)]"
    by (simp add: range_int_def upt_conv_Cons)
  with assms(1,2) show ?thesis
    by (simp add: main_def split: sum.splits)
qed

theorem no_conditions_one_dispatch_witness:
  "wait_for_or_list (poll_params None ''any'' 5) = []
   \<and> parse_commands (poll_params None ''any'' 5) [] = Inr (show_version, [])
   \<and> (1::int) \<le> retries (poll_params None ''any'' 5)
   \<and> main (sample_env [Inr [''VyOS 1.3.0'']]) (poll_params None ''any'' 5)
     = ([Dispatch 0 show_version],
        Exit_json \<lparr>changed = False, warnings = [], stdout = [''VyOS 1.3.0''],
          stdout_lines = [[''VyOS 1.3.0'']]\<rparr>)"
proof -
  have a: "wait_for_or_list (poll_params None ''any'' 5) = []"
    by (simp add: wait_for_or_list_def poll_params_def)
  have b: "parse_commands (poll_params None ''any'' 5) [] = Inr (show_version, [])"
    by code_simp
  have c: "(1::int) \<le> retries (poll_params None ''any'' 5)"
    by (simp add: poll_params_def)
  from no_conditions_one_dispatch[OF a b c, of "sample_env [Inr [''VyOS 1.3.0'']]"] a b c
  show ?thesis
    by (simp add: run_api_commands_def sample_env_def device_def)
qed

section \<open>Exceptions of an evaluation\<close>

lemma eval_loop_raise_last:
  "eval_loop E m n rs items conds = (tr, r) \<Longrightarrow> Eval k i (Inl e) \<in> set tr
     \<Longrightarrow> r = Inl e \<and> last tr = Eval k i (Inl e)"
proof (induction items arbitrary: conds tr)
  case Nil then show ?case by simp
next
  case (Cons item rest)
  from Cons.prems(1) show ?case
  proof (cases rule: eval_loop_Cons_cases)
    case (raised e')
    with Cons.prems(2) show ?thesis by simp
  next
    case any_pass
    with Cons.prems(2) show ?thesis by simp
  next
    case (all_pass tr')
    with Cons.prems(2) have mem: "Eval k i (Inl e) \<in> set tr'" by simp
    then have "tr' \<noteq> []" by auto
    with Cons.IH[OF all_pass(3) mem] all_pass(4) show ?thesis by simp
  next
    case (unmet tr')
    with Cons.prems(2) have mem: "Eval k i (Inl e) \<in> set tr'" by simp
    then have "tr' \<noteq> []" by auto
    with Cons.IH[OF unmet(2) mem] unmet(3) show ?thesis by simp
  qed
qed

lemma eval_loop_Inr_no_raise:
  assumes "eval_loop E m n rs items conds = (tr, Inr conds')"
  shows "Eval k i (Inl e) \<notin> set tr"
proof
  assume "Eval k i (Inl e) \<in> set tr"
  from eval_loop_raise_last[OF assms this] show False by simp
qed

lemma poll_loop_raise_last:
  "poll_loop E module cmds ns conds resp = (tr, r) \<Longrightarrow> Eval k i (Inl e) \<in> set tr
     \<Longrightarrow> r = Inl e \<and> last tr = Eval k i (Inl e)"
proof (induction ns arbitrary: conds resp tr)
  case Nil then show ?case by simp
next
  case (Cons n ns)
  from Cons.prems(1) show ?case
  proof (cases rule: poll_loop_Cons_cases)
    case (transport_fail e')
    with Cons.prems(2) show ?thesis by simp
  next
    case (eval_fail rs tre e')
    with Cons.prems(2) have mem: "Eval k i (Inl e) \<in> set tre" by simp
    then have "tre \<noteq> []" by auto
    with eval_loop_raise_last[OF eval_fail(2) mem] eval_fail(3,4) show ?thesis by simp
  next
    case (finished rs tre)
    with Cons.prems(2) eval_loop_Inr_no_raise[OF finished(2)] show ?thesis by simp
  next
    case (sleep_fail rs tre conds' e')
    with Cons.prems(2) eval_loop_Inr_no_raise[OF sleep_fail(2)] show ?thesis by simp
  next
    case (retry rs tre conds' tr')
    with Cons.prems(2) eval_loop_Inr_no_raise[OF retry(2)]
    have mem: "Eval k i (Inl e) \<in> set tr'" by simp
    then have "tr' \<noteq> []" by auto
    with Cons.IH[OF retry(5) mem] retry(6) show ?thesis by simp
  qed
qed

text \<open>
  Claim C4, as stated, fails when the evaluation of a condition raises on an index out
  of range: the loop has no handler around \<^verbatim>\<open>item(responses)\<close>, so the first attempt
  ends the run with the exception; there is no retry and no \<^verbatim>\<open>failed_conditions\<close>.
\<close>

theorem index_out_of_range_aborts:
  "main (sample_env [Inr [''a'', ''b''], Inr [''a'', ''b''], Inr [''a'', ''b'']])
      (poll_params (Some [''result[5] eq x'']) ''all'' 3)
    = ([Dispatch 0 show_version,
        Eval 0 0 (Inl (Exception ''unable to apply conditional to result''))],
       Raised (Exception ''unable to apply conditional to result''))"
  by code_simp

text \<open>
  Claim C4, amended. An exception raised by the evaluation of a condition is not
  downgraded: it leaves \<^verbatim>\<open>main\<close>, and that evaluation is the last thing the run does
  (no further evaluation, sleep or dispatch).
\<close>

theorem evaluation_exception_propagates:
  assumes "main E module = (tr, out)" and "Eval n i (Inl e) \<in> set tr"
  shows "out = Raised e \<and> last tr = Eval n i (Inl e)"
  using assms(1)
proof (cases rule: main_cases)
  case (poll_raise cmds ws conds e')
  from poll_loop_raise_last[OF poll_raise(3) assms(2)] poll_raise(4) show ?thesis by simp
next
  case (unmet cmds ws conds conds' resp)
  from poll_loop_raise_last[OF unmet(3) assms(2)] show ?thesis by simp
next
  case (unbound cmds ws conds)
  from poll_loop_raise_last[OF unbound(3) assms(2)] show ?thesis by simp
next
  case (exit cmds ws conds rs)
  from poll_loop_raise_last[OF exit(3) assms(2)] show ?thesis by simp
qed (use assms(2) in simp_all)

theorem evaluation_exception_propagates_witness:
  "main (sample_env [Inr [''down'', ''b'']])
      (poll_params (Some [''result[0] eq up'', ''result[5] eq x'']) ''all'' 4)
    = ([Dispatch 0 show_version, Eval 0 0 (Inr False),
        Eval 0 1 (Inl (Exception ''unable to apply conditional to result''))],
       Raised (Exception ''unable to apply conditional to result''))
   \<and> last [Dispatch 0 show_version, Eval 0 0 (Inr False),
        Eval 0 1 (Inl (Exception ''unable to apply conditional to result''))]
     = Eval 0 1 (Inl (Exception ''unable to apply conditional to result''))"
proof -
  have run: "main (sample_env [Inr [''down'', ''b'']])
      (poll_params (Some [''result[0] eq up'', ''result[5] eq x'']) ''all'' 4)
    = ([Dispatch 0 show_version, Eval 0 0 (Inr False),
        Eval 0 1 (Inl (Exception ''unable to apply conditional to result''))],
       Raised (Exception ''unable to apply conditional to result''))"
    by code_simp
  have mem: "Eval 0 1 (Inl (Exception ''unable to apply conditional to result''))
    \<in> set [Dispatch 0 show_version, Eval 0 0 (Inr False),
        Eval 0 1 (Inl (Exception ''unable to apply conditional to result''))]"
    by simp
  from evaluation_exception_propagates[OF run mem] run show ?thesis by simp
qed

section \<open>Malformed expressions\<close>

text \<open>
  Claim C7. When the constructor \<^verbatim>\<open>Conditional\<close> raises on one of the \<^verbatim>\<open>wait_for\<close>
  expressions, the run ends in failure (by \<^verbatim>\<open>fail_json\<close>, or by the exception when it
  is not an \<^verbatim>\<open>AttributeError\<close>) before the loop: it does nothing to the outside, so it
  makes no dispatch and no second attempt.
\<close>

theorem malformed_wait_for_no_dispatch:
  assumes "main E module = (tr, out)"
    and "c \<in> set (wait_for_or_list module)" and "Conditional E c = Inl e"
  shows "tr = [] \<and> dispatches tr = 0 \<and> \<not> is_Exit out"
proof -
  from compile_all_Inl[OF assms(2,3)] obtain e' where
    "compile_all E 0 (wait_for_or_list module) = Inl e'" by blast
  with assms(1) show ?thesis
    by (cases rule: main_cases) (simp_all add: dispatches_def)
qed

theorem malformed_wait_for_no_dispatch_witness:
  "main (sample_env [Inr [''up'']])
      (poll_params (Some [''result[0] eq up'', ''result[0] frobnicate x'']) ''all'' 3)
    = ([], Fail_json ''unknown operator'' None)
   \<and> ''result[0] frobnicate x''
       \<in> set (wait_for_or_list
           (poll_params (Some [''result[0] eq up'', ''result[0] frobnicate x'']) ''all'' 3))
   \<and> Conditional (sample_env [Inr [''up'']]) ''result[0] frobnicate x''
       = Inl (AttributeError ''unknown operator'')
   \<and> dispatches [] = 0 \<and> \<not> is_Exit (Fail_json ''unknown operator'' None)"
proof -
  have run: "main (sample_env [Inr [''up'']])
      (poll_params (Some [''result[0] eq up'', ''result[0] frobnicate x'']) ''all'' 3)
    = ([], Fail_json ''unknown operator'' None)"
    by code_simp
  have mem: "''result[0] frobnicate x''
       \<in> set (wait_for_or_list
           (poll_params (Some [''result[0] eq up'', ''result[0] frobnicate x'']) ''all'' 3))"
    by (simp add: wait_for_or_list_def poll_params_def)
  have bad: "Conditional (sample_env [Inr [''up'']]) ''result[0] frobnicate x''
       = Inl (AttributeError ''unknown operator'')"
    by code_simp
  from malformed_wait_for_no_dispatch[OF run mem bad] run mem bad show ?thesis by simp
qed

section \<open>The allowed commands\<close>

lemma count_list_remove1:
  "count_list (remove1 x xs) y = (if x = y then count_list xs y - 1 else count_list xs y)"
  by (induction xs) auto

lemma parse_loop_Inl:
  "item \<in> set items \<Longrightarrow> \<not> startswith_any item API_COMMANDS
     \<Longrightarrow> \<exists>bad \<in> set items. \<not> startswith_any bad API_COMMANDS
           \<and> parse_loop cm items cmds ws = Inl (not_allowed_msg bad)"
proof (induction items arbitrary: cmds ws)
  case Nil then show ?case by simp
next
  case (Cons a items)
  show ?case
  proof (cases "startswith_any a API_COMMANDS")
    case False then show ?thesis by simp
  next
    case True
    with Cons.prems have mem: "item \<in> set items" by auto
    show ?thesis
    proof (cases "cm \<and> \<not> startswith a ''show''")
      case c: True
      from Cons.IH[OF mem Cons.prems(2), of "remove1 a cmds" "ws @ [check_mode_warning a]"]
        True c show ?thesis by auto
    next
      case c: False
      from Cons.IH[OF mem Cons.prems(2), of cmds ws] True c show ?thesis by auto
    qed
  qed
qed

lemma parse_loop_Inr:
  "parse_loop cm items cmds ws = Inr (cmds', ws')
     \<Longrightarrow> set cmds' \<subseteq> set cmds \<and> (\<forall>c \<in> set items. startswith_any c API_COMMANDS)"
proof (induction items arbitrary: cmds ws)
  case Nil then show ?case by simp
next
  case (Cons a items)
  from Cons.prems have a: "startswith_any a API_COMMANDS" by (simp split: if_splits)
  show ?case
  proof (cases "cm \<and> \<not> startswith a ''show''")
    case True
    with Cons.prems a have "parse_loop cm items (remove1 a cmds) (ws @ [check_mode_warning a]) = Inr (cmds', ws')"
      by simp
    from Cons.IH[OF this] set_remove1_subset[of a cmds] a show ?thesis by auto
  next
    case False
    with Cons.prems a have "parse_loop cm items cmds ws = Inr (cmds', ws')" by auto
    from Cons.IH[OF this] a show ?thesis by auto
  qed
qed

lemma parse_loop_check_mode:
  "parse_loop True items cmds ws = Inr (cmds', ws')
     \<Longrightarrow> (\<forall>c. \<not> startswith c ''show'' \<longrightarrow> count_list cmds c \<le> count_list items c)
     \<Longrightarrow> \<forall>c \<in> set cmds'. startswith c ''show''"
proof (induction items arbitrary: cmds ws)
  case Nil
  then have "\<forall>c. \<not> startswith c ''show'' \<longrightarrow> count_list cmds' c = 0" by simp
  then show ?case by (metis count_list_0_iff)
next
  case (Cons a items)
  from Cons.prems(1) have a: "startswith_any a API_COMMANDS" by (simp split: if_splits)
  show ?case
  proof (cases "startswith a ''show''")
    case True
    with Cons.prems(1) a have run: "parse_loop True items cmds ws = Inr (cmds', ws')" by simp
    have "count_list cmds c \<le> count_list items c" if "\<not> startswith c ''show''" for c
    proof -
      from that True have "a \<noteq> c" by auto
      with Cons.prems(2)[rule_format, OF that] show ?thesis by simp
    qed
    then have "\<forall>c. \<not> startswith c ''show'' \<longrightarrow> count_list cmds c \<le> count_list items c"
      by blast
    from Cons.IH[OF run this] show ?thesis .
  next
    case False
    with Cons.prems(1) a
    have run: "parse_loop True items (remove1 a cmds) (ws @ [check_mode_warning a]) = Inr (cmds', ws')"
      by simp
    have "count_list (remove1 a cmds) c \<le> count_list items c" if "\<not> startswith c ''show''" for c
      using Cons.prems(2)[rule_format, OF that] by (auto simp: count_list_remove1)
    then have "\<forall>c. \<not> startswith c ''show'' \<longrightarrow> count_list (remove1 a cmds) c \<le> count_list items c"
      by blast
    from Cons.IH[OF run this] show ?thesis .
  qed
qed

lemma parse_commands_Inl:
  assumes "item \<in> set (commands module)" and "\<not> startswith_any item API_COMMANDS"
  shows "\<exists>bad \<in> set (commands module). \<not> startswith_any bad API_COMMANDS
           \<and> parse_commands module [] = Inl (not_allowed_msg bad)"
  unfolding parse_commands_def by (rule parse_loop_Inl[OF assms])

lemma parse_commands_Inr:
  assumes "parse_commands module [] = Inr (cmds, ws)"
  shows "\<forall>c \<in> set cmds. c \<in> set (commands module) \<and> startswith_any c API_COMMANDS
           \<and> (check_mode module \<longrightarrow> startswith c ''show'')"
proof -
  from assms have run:
    "parse_loop (check_mode module) (commands module) (commands module) [] = Inr (cmds, ws)"
    by (simp add: parse_commands_def)
  from parse_loop_Inr[OF run] have sub: "set cmds \<subseteq> set (commands module)"
    and ok: "\<forall>c \<in> set (commands module). startswith_any c API_COMMANDS" by auto
  have "\<forall>c \<in> set cmds. startswith c ''show''" if "check_mode module"
    using parse_loop_check_mode[of "commands module" "commands module" "[]" cmds ws] run that
    by simp
  with sub ok show ?thesis by blast
qed

text \<open>
  Claim C10. A command that starts with none of \<^verbatim>\<open>show\<close>, \<^verbatim>\<open>generate\<close>, \<^verbatim>\<open>set\<close>,
  \<^verbatim>\<open>delete\<close>, \<^verbatim>\<open>comment\<close> makes the run fail with \<^verbatim>\<open>fail_json\<close> before anything is
  dispatched; so every command of every dispatch is one of the given commands and
  starts with an allowed prefix, and in check mode with \<^verbatim>\<open>show\<close>.
\<close>

theorem only_allowed_commands_dispatched:
  assumes "main E module = (tr, out)"
  shows "(\<forall>item \<in> set (commands module). \<not> startswith_any item API_COMMANDS \<longrightarrow>
            tr = [] \<and> (\<exists>bad \<in> set (commands module). \<not> startswith_any bad API_COMMANDS
                        \<and> out = Fail_json (not_allowed_msg bad) None))
    \<and> (\<forall>n cmds. Dispatch n cmds \<in> set tr \<longrightarrow>
          (\<forall>c \<in> set cmds. c \<in> set (commands module) \<and> startswith_any c API_COMMANDS
             \<and> (check_mode module \<longrightarrow> startswith c ''show'')))"
proof (intro conjI ballI allI impI)
  fix item assume "item \<in> set (commands module)" "\<not> startswith_any item API_COMMANDS"
  from parse_commands_Inl[OF this] obtain bad where bad: "bad \<in> set (commands module)"
    "\<not> startswith_any bad API_COMMANDS" "parse_commands module [] = Inl (not_allowed_msg bad)"
    by blast
  with assms have "tr = []" "out = Fail_json (not_allowed_msg bad) None"
    by (simp_all add: main_def)
  with bad show "tr = []"
    and "\<exists>bad \<in> set (commands module). \<not> startswith_any bad API_COMMANDS
           \<and> out = Fail_json (not_allowed_msg bad) None" by auto
next
  fix n cmds c assume d: "Dispatch n cmds \<in> set tr" and c: "c \<in> set cmds"
  from assms have "c \<in> set (commands module) \<and> startswith_any c API_COMMANDS
           \<and> (check_mode module \<longrightarrow> startswith c ''show'')"
  proof (cases rule: main_poll)
    case 1 with d show ?thesis by simp
  next
    case (2 cmds' ws conds r)
    from poll_loop_Dispatch_mem[OF 2(3) d] have "cmds = cmds'" by simp
    with parse_commands_Inr[OF 2(1)] c show ?thesis by blast
  qed
  then show "c \<in> set (commands module)" and "startswith_any c API_COMMANDS"
    and "check_mode module \<Longrightarrow> startswith c ''show''" by auto
qed

theorem only_allowed_commands_dispatched_witness:
  "main (sample_env [Inr [''1.3.0'']]) (check_params [''show version'', ''reboot now''] False)
     = ([], Fail_json (not_allowed_msg ''reboot now'') None)
   \<and> \<not> startswith_any ''reboot now'' API_COMMANDS
   \<and> main (sample_env [Inr [''1.3.0'']])
       (check_params [''set system host-name r1'', ''show version''] True)
     = ([Dispatch 0 [''show version'']],
        Exit_json \<lparr>changed = False,
          warnings = [check_mode_warning ''set system host-name r1''],
          stdout = [''1.3.0''], stdout_lines = [[''1.3.0'']]\<rparr>)
   \<and> startswith_any ''show version'' API_COMMANDS \<and> startswith ''show version'' ''show''"
proof -
  have run1: "main (sample_env [Inr [''1.3.0'']])
      (check_params [''show version'', ''reboot now''] False)
     = ([], Fail_json (not_allowed_msg ''reboot now'') None)"
    by code_simp
  have bad: "\<not> startswith_any ''reboot now'' API_COMMANDS"
    by code_simp
  have run2: "main (sample_env [Inr [''1.3.0'']])
       (check_params [''set system host-name r1'', ''show version''] True)
     = ([Dispatch 0 [''show version'']],
        Exit_json \<lparr>changed = False,
          warnings = [check_mode_warning ''set system host-name r1''],
          stdout = [''1.3.0''], stdout_lines = [[''1.3.0'']]\<rparr>)"
    by code_simp
  from only_allowed_commands_dispatched[OF run2]
  have "startswith_any ''show version'' API_COMMANDS \<and> startswith ''show version'' ''show''"
    by (simp add: check_params_def)
  with only_allowed_commands_dispatched[OF run1] run1 run2 bad show ?thesis by simp
qed

section \<open>Pending conditionals\<close>

lemma passed_simps [simp]:
  "passed [] i = False"
  "passed (Dispatch n c # tr) i = passed tr i"
  "passed (Sleep s # tr) i = passed tr i"
  "passed (Eval n j r # tr) i = ((j = i \<and> r = Inr True) \<or> passed tr i)"
  "passed (tr @ tr') i = (passed tr i \<or> passed tr' i)"
  by (simp_all add: passed_def)

lemma evaluated_simps [simp]:
  "evaluated [] i = False"
  "evaluated (Dispatch n c # tr) i = evaluated tr i"
  "evaluated (Sleep s # tr) i = evaluated tr i"
  "evaluated (Eval n j r # tr) i = (j = i \<or> evaluated tr i)"
  "evaluated (tr @ tr') i = (evaluated tr i \<or> evaluated tr' i)"
  by (simp_all add: evaluated_def)

lemma passed_iff: "passed tr i \<longleftrightarrow> (\<exists>n. Eval n i (Inr True) \<in> set tr)"
proof (induction tr)
  case Nil show ?case by simp
next
  case (Cons ev tr) then show ?case by (cases ev) auto
qed

lemma evaluated_iff: "evaluated tr i \<longleftrightarrow> (\<exists>n r. Eval n i r \<in> set tr)"
proof (induction tr)
  case Nil show ?case by simp
next
  case (Cons ev tr) then show ?case by (cases ev) auto
qed

lemma passed_evaluated: "passed tr i \<Longrightarrow> evaluated tr i"
  by (auto simp: passed_iff evaluated_iff)

lemma reevaluated_append:
  "reevaluated i (tr @ tr') =
     (reevaluated i tr \<or> reevaluated i tr' \<or> (passed tr i \<and> evaluated tr' i))"
proof (induction tr)
  case Nil show ?case by simp
next
  case (Cons ev tr) then show ?case by (cases ev) auto
qed

lemma reevaluated_split:
  "tr = tr1 @ Eval n i (Inr True) # tr2 \<Longrightarrow> Eval k i r \<in> set tr2 \<Longrightarrow> reevaluated i tr"
  by (auto simp: reevaluated_append evaluated_iff)

lemma eval_loop_evaluated:
  assumes "eval_loop E m n rs items conds = (tr, r)" and "evaluated tr i"
  shows "i \<in> ident ` set items"
proof -
  from assms(2) obtain k res where "Eval k i res \<in> set tr" by (auto simp: evaluated_iff)
  from eval_loop_events[OF assms(1) this] show ?thesis by auto
qed

lemma eval_loop_once:
  "eval_loop E m n rs items conds = (tr, r) \<Longrightarrow> distinct (map ident items)
     \<Longrightarrow> \<not> reevaluated i tr"
proof (induction items arbitrary: conds tr)
  case Nil then show ?case by simp
next
  case (Cons item rest)
  from Cons.prems(2) have d: "distinct (map ident rest)" and ni: "ident item \<notin> ident ` set rest"
    by auto
  from Cons.prems(1) show ?case
  proof (cases rule: eval_loop_Cons_cases)
    case (all_pass tr')
    from eval_loop_evaluated[OF all_pass(3)] ni have "\<not> evaluated tr' (ident item)" by blast
    with Cons.IH[OF all_pass(3) d] all_pass(4) show ?thesis by auto
  next
    case (unmet tr')
    with Cons.IH[OF unmet(2) d] show ?thesis by simp
  qed simp_all
qed

text \<open>The conditionals left after the inner loop are those that did not pass in it.\<close>

lemma eval_loop_pending:
  "eval_loop E m n rs items conds = (tr, Inr conds') \<Longrightarrow> m \<noteq> ''any'' \<or> conds' \<noteq> []
     \<Longrightarrow> distinct (map ident conds) \<Longrightarrow> distinct items \<Longrightarrow> set items \<subseteq> set conds
     \<Longrightarrow> conds' = filter (\<lambda>c. \<not> passed tr (ident c)) conds"
proof (induction items arbitrary: conds tr)
  case Nil then show ?case by simp
next
  case (Cons item rest)
  from Cons.prems(4) have dr: "distinct rest" and nr: "item \<notin> set rest" by auto
  from Cons.prems(5) have mem: "item \<in> set conds" and sub: "set rest \<subseteq> set conds" by auto
  from Cons.prems(3) have inj: "inj_on ident (set conds)" by (simp add: distinct_map)
  from Cons.prems(1) show ?case
  proof (cases rule: eval_loop_Cons_cases)
    case any_pass
    with Cons.prems(2) show ?thesis by simp
  next
    case (all_pass tr')
    have r1: "remove1 item conds = filter (\<lambda>x. x \<noteq> item) conds"
      by (rule remove1_filter_ident[OF Cons.prems(3)])
    have sub': "set rest \<subseteq> set (remove1 item conds)"
      using sub nr by (auto simp: r1)
    from Cons.IH[OF all_pass(3) Cons.prems(2) distinct_ident_remove1[OF Cons.prems(3)] dr sub']
    have "conds' = filter (\<lambda>c. \<not> passed tr' (ident c)) (filter (\<lambda>x. x \<noteq> item) conds)"
      by (simp add: r1)
    also have "\<dots> = filter (\<lambda>c. \<not> passed tr (ident c)) conds"
      unfolding filter_filter
    proof (rule filter_cong[OF refl])
      fix c assume "c \<in> set conds"
      with inj mem have "ident c = ident item \<longleftrightarrow> c = item" by (auto dest: inj_onD)
      with all_pass(4) show "(c \<noteq> item \<and> \<not> passed tr' (ident c)) = (\<not> passed tr (ident c))"
        by auto
    qed
    finally show ?thesis .
  next
    case (unmet tr')
    from Cons.IH[OF unmet(2) Cons.prems(2,3) dr sub] unmet(3) show ?thesis by simp
  qed simp
qed

lemma compile_all_distinct:
  assumes "compile_all E i es = Inr cs"
  shows "distinct (map ident cs)"
  using compile_all_idents[OF assms] by simp

lemma poll_loop_evaluated:
  "poll_loop E module cmds ns conds resp = (tr, r) \<Longrightarrow> evaluated tr i
     \<Longrightarrow> i \<in> ident ` set conds"
proof (induction ns arbitrary: conds resp tr)
  case Nil then show ?case by simp
next
  case (Cons n ns)
  from Cons.prems(1) show ?case
  proof (cases rule: poll_loop_Cons_cases)
    case (transport_fail e)
    with Cons.prems(2) show ?thesis by simp
  next
    case (eval_fail rs tre e)
    with Cons.prems(2) eval_loop_evaluated[OF eval_fail(2)] show ?thesis by simp
  next
    case (finished rs tre)
    with Cons.prems(2) eval_loop_evaluated[OF finished(2)] show ?thesis by simp
  next
    case (sleep_fail rs tre conds' e)
    with Cons.prems(2) eval_loop_evaluated[OF sleep_fail(2)] show ?thesis by simp
  next
    case (retry rs tre conds' tr')
    from Cons.prems(2) retry(6) have "evaluated tre i \<or> evaluated tr' i" by simp
    then show ?thesis
    proof
      assume "evaluated tre i"
      with eval_loop_evaluated[OF retry(2)] show ?thesis by simp
    next
      assume "evaluated tr' i"
      from Cons.IH[OF retry(5) this] eval_loop_subset[OF retry(2)] show ?thesis by blast
    qed
  qed
qed

lemma eval_loop_pending_self:
  assumes "eval_loop E m n rs conds conds = (tr, Inr conds')" and "m \<noteq> ''any'' \<or> conds' \<noteq> []"
    and "distinct (map ident conds)"
  shows "conds' = filter (\<lambda>c. \<not> passed tr (ident c)) conds"
proof -
  from assms(3) have "distinct conds" by (simp add: distinct_map)
  from eval_loop_pending[OF assms(1,2,3) this subset_refl] show ?thesis .
qed

lemma poll_loop_once:
  "poll_loop E module cmds ns conds resp = (tr, r) \<Longrightarrow> match module \<noteq> ''any''
     \<Longrightarrow> distinct (map ident conds) \<Longrightarrow> \<not> reevaluated i tr"
proof (induction ns arbitrary: conds resp tr)
  case Nil then show ?case by simp
next
  case (Cons n ns)
  from Cons.prems(3) have d: "distinct (map ident conds)" .
  from Cons.prems(1) show ?case
  proof (cases rule: poll_loop_Cons_cases)
    case (transport_fail e)
    then show ?thesis by simp
  next
    case (eval_fail rs tre e)
    with eval_loop_once[OF eval_fail(2) d] show ?thesis by simp
  next
    case (finished rs tre)
    with eval_loop_once[OF finished(2) d] show ?thesis by simp
  next
    case (sleep_fail rs tre conds' e)
    with eval_loop_once[OF sleep_fail(2) d] show ?thesis by (simp add: reevaluated_append)
  next
    case (retry rs tre conds' tr')
    have c': "conds' = filter (\<lambda>c. \<not> passed tre (ident c)) conds"
      using eval_loop_pending_self[OF retry(2) _ d] Cons.prems(2) by simp
    have "\<not> evaluated tr' i" if "passed tre i"
    proof
      assume "evaluated tr' i"
      from poll_loop_evaluated[OF retry(5) this] c' that show False by auto
    qed
    with eval_loop_once[OF retry(2) d, of i]
      Cons.IH[OF retry(5) Cons.prems(2) eval_loop_distinct[OF retry(2) d]] retry(6)
    show ?thesis by (auto simp: reevaluated_append)
  qed
qed

lemma poll_loop_pending:
  "poll_loop E module cmds ns conds resp = (tr, Inr (conds', resp'))
     \<Longrightarrow> match module \<noteq> ''any'' \<or> conds' \<noteq> [] \<Longrightarrow> distinct (map ident conds)
     \<Longrightarrow> conds' = filter (\<lambda>c. \<not> passed tr (ident c)) conds"
proof (induction ns arbitrary: conds resp tr)
  case Nil then show ?case by simp
next
  case (Cons n ns)
  from Cons.prems(3) have d: "distinct (map ident conds)" .
  from Cons.prems(1) show ?case
  proof (cases rule: poll_loop_Cons_cases)
    case (finished rs tre)
    with Cons.prems(2) have m: "match module \<noteq> ''any''" by simp
    from eval_loop_pending_self[OF finished(2) _ d] m
    have "[] = filter (\<lambda>c. \<not> passed tre (ident c)) conds" by simp
    with finished(3,4) show ?thesis by simp
  next
    case (retry rs tre conds1 tr')
    have c1: "conds1 = filter (\<lambda>c. \<not> passed tre (ident c)) conds"
      using eval_loop_pending_self[OF retry(2) _ d] retry(3) by simp
    from Cons.IH[OF retry(5) Cons.prems(2) eval_loop_distinct[OF retry(2) d]]
    have "conds' = filter (\<lambda>c. \<not> passed tr' (ident c)) conds1" .
    with c1 retry(6) show ?thesis by (simp add: conj_commute)
  qed simp_all
qed

section \<open>Transport failures\<close>

lemma poll_loop_transport_fail:
  "poll_loop E module cmds ns conds resp = (tr, r) \<Longrightarrow> Dispatch k c \<in> set tr
     \<Longrightarrow> run_api_commands E k c False = Inl e
     \<Longrightarrow> r = Inl e \<and> last tr = Dispatch k c"
proof (induction ns arbitrary: conds resp tr)
  case Nil then show ?case by simp
next
  case (Cons n ns)
  from poll_loop_Dispatch_mem[OF Cons.prems(1,2)] have c: "c = cmds" by simp
  from Cons.prems(1) show ?case
  proof (cases rule: poll_loop_Cons_cases)
    case (transport_fail e')
    with Cons.prems(2,3) show ?thesis by simp
  next
    case (eval_fail rs tre e')
    with Cons.prems(2,3) c eval_loop_events[OF eval_fail(2)] show ?thesis by auto
  next
    case (finished rs tre)
    with Cons.prems(2,3) c eval_loop_events[OF finished(2)] show ?thesis by auto
  next
    case (sleep_fail rs tre conds' e')
    with Cons.prems(2,3) c eval_loop_events[OF sleep_fail(2)] show ?thesis by auto
  next
    case (retry rs tre conds' tr')
    with Cons.prems(2,3) c eval_loop_events[OF retry(2)]
    have mem: "Dispatch k c \<in> set tr'" by auto
    then have "tr' \<noteq> []" by auto
    with Cons.IH[OF retry(5) mem Cons.prems(3)] retry(6) show ?thesis by simp
  qed
qed

lemma eval_loop_pending_unmet:
  assumes "eval_loop E m n rs conds conds = (tr, Inr conds')" and "conds' \<noteq> []"
    and "distinct (map ident conds)"
  shows "\<exists>i. Eval n i (Inr False) \<in> set tr"
proof -
  from eval_loop_pending_self[OF assms(1) _ assms(3)] assms(2)
  have c': "conds' = filter (\<lambda>c. \<not> passed tr (ident c)) conds" by simp
  with assms(2) have "filter (\<lambda>c. \<not> passed tr (ident c)) conds \<noteq> []" by simp
  then obtain c where c: "c \<in> set conds" "\<not> passed tr (ident c)"
    by (auto simp: filter_empty_conv)
  have "\<And>items cs tr. eval_loop E m n rs items cs = (tr, Inr conds') \<Longrightarrow> c \<in> set items
      \<Longrightarrow> \<not> passed tr (ident c) \<Longrightarrow> Eval n (ident c) (Inr False) \<in> set tr"
  proof -
    fix items cs tr
    show "eval_loop E m n rs items cs = (tr, Inr conds') \<Longrightarrow> c \<in> set items
      \<Longrightarrow> \<not> passed tr (ident c) \<Longrightarrow> Eval n (ident c) (Inr False) \<in> set tr"
    proof (induction items arbitrary: cs tr)
      case Nil then show ?case by simp
    next
      case (Cons item rest)
      from Cons.prems(1) show ?case
      proof (cases rule: eval_loop_Cons_cases)
        case any_pass
        with assms(2) show ?thesis by simp
      next
        case (all_pass tr')
        with Cons.prems(2,3) have "c \<in> set rest" "\<not> passed tr' (ident c)" by auto
        from Cons.IH[OF all_pass(3) this] all_pass(4) show ?thesis by simp
      next
        case (unmet tr')
        show ?thesis
        proof (cases "c = item")
          case True with unmet(3) show ?thesis by simp
        next
          case False
          with Cons.prems(2,3) unmet(3) have "c \<in> set rest" "\<not> passed tr' (ident c)" by auto
          from Cons.IH[OF unmet(2) this] unmet(3) show ?thesis by simp
        qed
      qed simp
    qed
  qed
  from this[OF assms(1) c] show ?thesis by blast
qed

lemma poll_loop_retry_unmet:
  "poll_loop E module cmds ns conds resp = (tr, r) \<Longrightarrow> ns = [a..<b]
     \<Longrightarrow> distinct (map ident conds) \<Longrightarrow> Dispatch (Suc k) c \<in> set tr \<Longrightarrow> a \<le> k
     \<Longrightarrow> (\<exists>rs. run_api_commands E k cmds False = Inr rs) \<and> (\<exists>i. Eval k i (Inr False) \<in> set tr)"
proof (induction ns arbitrary: conds resp tr a)
  case Nil then show ?case by simp
next
  case (Cons n ns)
  from Cons.prems(2)[symmetric] have n: "n = a" and ns: "ns = [Suc a..<b]"
    by (auto simp: upt_eq_Cons_conv)
  from Cons.prems(5) n have neq: "Suc k \<noteq> n" by simp
  from Cons.prems(1) show ?case
  proof (cases rule: poll_loop_Cons_cases)
    case (transport_fail e)
    with Cons.prems(4) neq show ?thesis by simp
  next
    case (eval_fail rs tre e)
    with Cons.prems(4) neq eval_loop_events[OF eval_fail(2)] show ?thesis by auto
  next
    case (finished rs tre)
    with Cons.prems(4) neq eval_loop_events[OF finished(2)] show ?thesis by auto
  next
    case (sleep_fail rs tre conds' e)
    with Cons.prems(4) neq eval_loop_events[OF sleep_fail(2)] show ?thesis by auto
  next
    case (retry rs tre conds' tr')
    with Cons.prems(4) neq eval_loop_events[OF retry(2)]
    have mem: "Dispatch (Suc k) c \<in> set tr'" by auto
    show ?thesis
    proof (cases "k = a")
      case True
      from eval_loop_pending_unmet[OF retry(2,3) Cons.prems(3)] obtain i
        where "Eval n i (Inr False) \<in> set tre" by blast
      with True n retry(1,6) show ?thesis by auto
    next
      case False
      with Cons.prems(5) have "Suc a \<le> k" by simp
      from Cons.IH[OF retry(5) ns eval_loop_distinct[OF retry(2) Cons.prems(3)] mem this] retry(6)
      show ?thesis by auto
    qed
  qed
qed

text \<open>
  Claim C3. The call of \<^verbatim>\<open>run_api_commands\<close> stands outside any handler: when the
  \<open>n\<close>-th call raises, the run ends with that exception and the call is the last
  thing it does, so nothing is retried. A further dispatch (attempt \<open>k + 1\<close>) happens
  only after an attempt \<open>k\<close> whose dispatch returned and in which some condition
  evaluated false.
\<close>

theorem transport_failure_is_fatal:
  assumes "main E module = (tr, out)"
  shows "(\<forall>n cmds e. Dispatch n cmds \<in> set tr \<and> run_api_commands E n cmds False = Inl e
            \<longrightarrow> out = Raised e \<and> last tr = Dispatch n cmds)
    \<and> (\<forall>k cmds. Dispatch (Suc k) cmds \<in> set tr
            \<longrightarrow> (\<exists>rs. run_api_commands E k cmds False = Inr rs)
                \<and> (\<exists>i. Eval k i (Inr False) \<in> set tr))"
  using assms
proof (cases rule: main_poll)
  case 1
  then show ?thesis by simp
next
  case (2 cmds ws conds r)
  have a: "out = Raised e \<and> last tr = Dispatch n c"
    if "Dispatch n c \<in> set tr" "run_api_commands E n c False = Inl e" for n c e
  proof -
    from poll_loop_transport_fail[OF 2(3) that] have r: "r = Inl e"
      and l: "last tr = Dispatch n c" by auto
    from assms 2(1,2,3) r have "out = Raised e"
      by (simp add: main_def)
    with l show ?thesis by simp
  qed
  have b: "(\<exists>rs. run_api_commands E k c False = Inr rs) \<and> (\<exists>i. Eval k i (Inr False) \<in> set tr)"
    if "Dispatch (Suc k) c \<in> set tr" for k c
  proof -
    from poll_loop_Dispatch_mem[OF 2(3) that] have "c = cmds" by simp
    with poll_loop_retry_unmet[OF 2(3) _ compile_all_distinct[OF 2(2)] that, of 0 "nat (retries module)"]
    show ?thesis by (simp add: range_int_def)
  qed
  from a b show ?thesis by blast
qed

theorem transport_failure_is_fatal_witness:
  "main (sample_env [Inr [''down''], Inl (Exception ''connection refused''), Inr [''up'']])
      (poll_params (Some [''result[0] eq up'']) ''all'' 5)
    = ([Dispatch 0 show_version, Eval 0 0 (Inr False), Sleep 1, Dispatch 1 show_version],
       Raised (Exception ''connection refused''))
   \<and> run_api_commands
        (sample_env [Inr [''down''], Inl (Exception ''connection refused''), Inr [''up'']])
        1 show_version False = Inl (Exception ''connection refused'')
   \<and> last [Dispatch 0 show_version, Eval 0 0 (Inr False), Sleep 1, Dispatch 1 show_version]
       = Dispatch 1 show_version
   \<and> (\<exists>rs. run_api_commands
        (sample_env [Inr [''down''], Inl (Exception ''connection refused''), Inr [''up'']])
        0 show_version False = Inr rs)"
proof -
  have run: "main (sample_env [Inr [''down''], Inl (Exception ''connection refused''), Inr [''up'']])
      (poll_params (Some [''result[0] eq up'']) ''all'' 5)
    = ([Dispatch 0 show_version, Eval 0 0 (Inr False), Sleep 1, Dispatch 1 show_version],
       Raised (Exception ''connection refused''))"
    by code_simp
  have bad: "run_api_commands
        (sample_env [Inr [''down''], Inl (Exception ''connection refused''), Inr [''up'']])
        1 show_version False = Inl (Exception ''connection refused'')"
    by (simp add: run_api_commands_def sample_env_def device_def)
  from transport_failure_is_fatal[OF run] run bad show ?thesis
    by (simp add: run_api_commands_def sample_env_def device_def)
qed

section \<open>The match policy \<^verbatim>\<open>any\<close>\<close>

lemma eval_loop_any_pass:
  "eval_loop E ''any'' n rs items conds = (tr, r) \<Longrightarrow> Eval k i (Inr True) \<in> set tr
     \<Longrightarrow> r = Inr [] \<and> last tr = Eval k i (Inr True)"
proof (induction items arbitrary: conds tr)
  case Nil then show ?case by simp
next
  case (Cons item rest)
  from Cons.prems(1) show ?case
  proof (cases rule: eval_loop_Cons_cases)
    case (raised e)
    with Cons.prems(2) show ?thesis by simp
  next
    case any_pass
    with Cons.prems(2) show ?thesis by simp
  next
    case (all_pass tr')
    then show ?thesis by simp
  next
    case (unmet tr')
    with Cons.prems(2) have mem: "Eval k i (Inr True) \<in> set tr'" by simp
    then have "tr' \<noteq> []" by auto
    with Cons.IH[OF unmet(2) mem] unmet(3) show ?thesis by simp
  qed
qed

lemma eval_loop_attempt:
  assumes "eval_loop E m n rs items conds = (tr, r)" and "Eval k i res \<in> set tr"
  shows "k = n"
  using eval_loop_events[OF assms] by auto

lemma poll_loop_any_pass:
  "poll_loop E module cmds ns conds resp = (tr, r) \<Longrightarrow> match module = ''any''
     \<Longrightarrow> Eval k i (Inr True) \<in> set tr
     \<Longrightarrow> last tr = Eval k i (Inr True) \<and> Dispatch k cmds \<in> set tr
         \<and> (\<exists>rs. run_api_commands E k cmds False = Inr rs \<and> r = Inr ([], Some rs))"
proof (induction ns arbitrary: conds resp tr)
  case Nil then show ?case by simp
next
  case (Cons n ns)
  from Cons.prems(1) show ?case
  proof (cases rule: poll_loop_Cons_cases)
    case (transport_fail e)
    with Cons.prems(3) show ?thesis by simp
  next
    case (eval_fail rs tre e)
    with Cons.prems(3) have "Eval k i (Inr True) \<in> set tre" by simp
    from eval_loop_any_pass[OF eval_fail(2)[unfolded Cons.prems(2)] this] show ?thesis by simp
  next
    case (finished rs tre)
    with Cons.prems(3) have mem: "Eval k i (Inr True) \<in> set tre" by simp
    then have ne: "tre \<noteq> []" by auto
    from eval_loop_attempt[OF finished(2) mem] have "k = n" .
    with eval_loop_any_pass[OF finished(2)[unfolded Cons.prems(2)] mem] ne finished
    show ?thesis by simp
  next
    case (sleep_fail rs tre conds' e)
    with Cons.prems(3) have "Eval k i (Inr True) \<in> set tre" by simp
    from eval_loop_any_pass[OF sleep_fail(2)[unfolded Cons.prems(2)] this] sleep_fail(3)
    show ?thesis by simp
  next
    case (retry rs tre conds' tr')
    have "Eval k i (Inr True) \<notin> set tre"
    proof
      assume "Eval k i (Inr True) \<in> set tre"
      from eval_loop_any_pass[OF retry(2)[unfolded Cons.prems(2)] this] retry(3)
      show False by simp
    qed
    with Cons.prems(3) retry(6) have mem: "Eval k i (Inr True) \<in> set tr'" by simp
    then have "tr' \<noteq> []" by auto
    with Cons.IH[OF retry(5) Cons.prems(2) mem] retry(6) show ?thesis by simp
  qed
qed

lemma eval_loop_any_first:
  "eval_loop E ''any'' n rs items conds = (tr, r) \<Longrightarrow> passed tr i
     \<Longrightarrow> \<not> passed (butlast tr) j"
proof (induction items arbitrary: conds tr)
  case Nil then show ?case by simp
next
  case (Cons item rest)
  from Cons.prems(1) show ?case
  proof (cases rule: eval_loop_Cons_cases)
    case (unmet tr')
    with Cons.prems(2) have p: "passed tr' i" by simp
    then have "tr' \<noteq> []" by auto
    with Cons.IH[OF unmet(2) p] unmet(3) show ?thesis by simp
  qed simp_all
qed

lemma eval_loop_any_pending:
  assumes "eval_loop E ''any'' n rs items conds = (tr, Inr conds')" and "conds' \<noteq> []"
  shows "\<not> passed tr j"
proof
  assume "passed tr j"
  then obtain k where "Eval k j (Inr True) \<in> set tr" by (auto simp: passed_iff)
  from eval_loop_any_pass[OF assms(1) this] assms(2) show False by simp
qed

lemma poll_loop_any_first:
  "poll_loop E module cmds ns conds resp = (tr, r) \<Longrightarrow> match module = ''any''
     \<Longrightarrow> passed tr i \<Longrightarrow> \<not> passed (butlast tr) j"
proof (induction ns arbitrary: conds resp tr)
  case Nil then show ?case by simp
next
  case (Cons n ns)
  from Cons.prems(1) show ?case
  proof (cases rule: poll_loop_Cons_cases)
    case (transport_fail e)
    then show ?thesis by simp
  next
    case (eval_fail rs tre e)
    with Cons.prems(3) have p: "passed tre i" by simp
    then obtain k where "Eval k i (Inr True) \<in> set tre" by (auto simp: passed_iff)
    from eval_loop_any_pass[OF eval_fail(2)[unfolded Cons.prems(2)] this] show ?thesis by simp
  next
    case (finished rs tre)
    with Cons.prems(3) have p: "passed tre i" by simp
    then have "tre \<noteq> []" by auto
    with eval_loop_any_first[OF finished(2)[unfolded Cons.prems(2)] p, of j] finished(3)
    show ?thesis by simp
  next
    case (sleep_fail rs tre conds' e)
    from eval_loop_any_pending[OF sleep_fail(2)[unfolded Cons.prems(2)] sleep_fail(3)]
    have "\<not> passed tre j" .
    with sleep_fail(5) show ?thesis by (simp add: butlast_append)
  next
    case (retry rs tre conds' tr')
    from eval_loop_any_pending[OF retry(2)[unfolded Cons.prems(2)] retry(3)]
    have np: "\<And>j. \<not> passed tre j" .
    with Cons.prems(3) retry(6) have p: "passed tr' i" by simp
    then have "tr' \<noteq> []" by auto
    with Cons.IH[OF retry(5) Cons.prems(2) p] np retry(6) show ?thesis
      by (simp add: butlast_append)
  qed
qed

text \<open>
  Claim C5. With \<^verbatim>\<open>match = any\<close>, an evaluation that returns true is the last thing the
  run does: no condition is evaluated after it in that attempt, and no sleep and no
  dispatch follow. No evaluation before it returned true, so it is the first one. The
  run ends with \<^verbatim>\<open>exit_json\<close> and reports the response of that attempt.
\<close>

theorem any_first_pass_ends_poll:
  assumes "main E module = (tr, out)" and "match module = ''any''"
    and "Eval n i (Inr True) \<in> set tr"
  shows "last tr = Eval n i (Inr True) \<and> (\<forall>j. \<not> passed (butlast tr) j)
    \<and> (\<exists>cmds ws rs. Dispatch n cmds \<in> set tr \<and> run_api_commands E n cmds False = Inr rs
          \<and> out = Exit_json \<lparr>changed = False, warnings = ws, stdout = rs,
                    stdout_lines = to_lines E rs\<rparr>)"
  using assms(1)
proof (cases rule: main_poll)
  case 1
  with assms(3) show ?thesis by simp
next
  case (2 cmds ws conds r)
  from poll_loop_any_pass[OF 2(3) assms(2,3)] obtain rs where
    l: "last tr = Eval n i (Inr True)" and d: "Dispatch n cmds \<in> set tr"
    and rs: "run_api_commands E n cmds False = Inr rs" and r: "r = Inr ([], Some rs)"
    by blast
  from assms(3) have "passed tr i" by (auto simp: passed_iff)
  from poll_loop_any_first[OF 2(3) assms(2) this] have f: "\<forall>j. \<not> passed (butlast tr) j"
    by blast
  from assms(1) 2(1,2,3) r
  have "out = Exit_json \<lparr>changed = False, warnings = ws, stdout = rs,
                    stdout_lines = to_lines E rs\<rparr>"
    by (simp add: main_def)
  with l d rs f show ?thesis by blast
qed

theorem any_first_pass_ends_poll_witness:
  "main (sample_env [Inr [''down'', ''down''], Inr [''down'', ''up''], Inr [''up'', ''up'']])
      (poll_params (Some [''result[0] eq up'', ''result[1] eq up'']) ''any'' 5)
    = ([Dispatch 0 show_version, Eval 0 0 (Inr False), Eval 0 1 (Inr False), Sleep 1,
        Dispatch 1 show_version, Eval 1 0 (Inr False), Eval 1 1 (Inr True)],
       Exit_json \<lparr>changed = False, warnings = [], stdout = [''down'', ''up''],
         stdout_lines = [[''down''], [''up'']]\<rparr>)
   \<and> match (poll_params (Some [''result[0] eq up'', ''result[1] eq up'']) ''any'' 5) = ''any''
   \<and> last [Dispatch 0 show_version, Eval 0 0 (Inr False), Eval 0 1 (Inr False), Sleep 1,
        Dispatch 1 show_version, Eval 1 0 (Inr False), Eval 1 1 (Inr True)]
      = Eval 1 1 (Inr True)
   \<and> \<not> passed (butlast [Dispatch 0 show_version, Eval 0 0 (Inr False), Eval 0 1 (Inr False),
        Sleep 1, Dispatch 1 show_version, Eval 1 0 (Inr False), Eval 1 1 (Inr True)]) 1"
proof -
  have run: "main (sample_env [Inr [''down'', ''down''], Inr [''down'', ''up''], Inr [''up'', ''up'']])
      (poll_params (Some [''result[0] eq up'', ''result[1] eq up'']) ''any'' 5)
    = ([Dispatch 0 show_version, Eval 0 0 (Inr False), Eval 0 1 (Inr False), Sleep 1,
        Dispatch 1 show_version, Eval 1 0 (Inr False), Eval 1 1 (Inr True)],
       Exit_json \<lparr>changed = False, warnings = [], stdout = [''down'', ''up''],
         stdout_lines = [[''down''], [''up'']]\<rparr>)"
    by code_simp
  have m: "match (poll_params (Some [''result[0] eq up'', ''result[1] eq up'']) ''any'' 5) = ''any''"
    by (simp add: poll_params_def)
  have mem: "Eval 1 1 (Inr True) \<in> set [Dispatch 0 show_version, Eval 0 0 (Inr False),
        Eval 0 1 (Inr False), Sleep 1, Dispatch 1 show_version, Eval 1 0 (Inr False),
        Eval 1 1 (Inr True)]"
    by simp
  from any_first_pass_ends_poll[OF run m mem] run m show ?thesis by blast
qed

section \<open>The match policy \<^verbatim>\<open>all\<close>\<close>

lemma compile_all_length:
  assumes "compile_all E i es = Inr cs"
  shows "length cs = length es"
  using compile_all_idents[OF assms] by (metis length_map)

lemma compile_all_nth:
  assumes "compile_all E 0 es = Inr cs" and "i < length es"
  shows "ident (cs ! i) = i \<and> raw (cs ! i) = es ! i"
proof -
  from compile_all_idents[OF assms(1)] have a: "map ident cs = [0..<length es]"
    and b: "map raw cs = es" by auto
  from compile_all_length[OF assms(1)] assms(2) have l: "i < length cs" by simp
  from a l assms(2) have "ident (cs ! i) = i" by (metis nth_map nth_upt add_0)
  moreover from b l have "raw (cs ! i) = es ! i" by (metis nth_map)
  ultimately show ?thesis by simp
qed

text \<open>
  Claim C6. With \<^verbatim>\<open>match = all\<close>, a condition that has evaluated true is removed from
  \<^verbatim>\<open>conditionals\<close>: after an evaluation of it that returned true, the run never
  evaluates it again, in that attempt or a later one. And the run ends with
  \<^verbatim>\<open>exit_json\<close> only if every expression of \<^verbatim>\<open>wait_for\<close> has evaluated true in some
  attempt.
\<close>

theorem all_policy_monotone:
  assumes "main E module = (tr, out)" and "match module = ''all''"
  shows "(\<forall>tr1 tr2 n i k r. tr = tr1 @ Eval n i (Inr True) # tr2 \<longrightarrow> Eval k i r \<notin> set tr2)
    \<and> (is_Exit out \<longrightarrow>
          (\<forall>i < length (wait_for_or_list module). \<exists>n. Eval n i (Inr True) \<in> set tr))"
proof -
  from assms(2) have m: "match module \<noteq> ''any''" by simp
  have once: "\<not> reevaluated i tr" for i
    using assms(1)
  proof (cases rule: main_poll)
    case 1 then show ?thesis by simp
  next
    case (2 cmds ws conds r)
    from poll_loop_once[OF 2(3) m compile_all_distinct[OF 2(2)]] show ?thesis .
  qed
  have a: "Eval k i r \<notin> set tr2" if "tr = tr1 @ Eval n i (Inr True) # tr2" for tr1 tr2 n i k r
  proof
    assume "Eval k i r \<in> set tr2"
    from reevaluated_split[OF that this] once show False by blast
  qed
  have b: "\<exists>n. Eval n i (Inr True) \<in> set tr"
    if ex: "is_Exit out" and i: "i < length (wait_for_or_list module)" for i
    using assms(1)
  proof (cases rule: main_cases)
    case (exit cmds ws conds rs)
    from poll_loop_pending[OF exit(3) _ compile_all_distinct[OF exit(2)]] m
    have "filter (\<lambda>c. \<not> passed tr (ident c)) conds = []" by simp
    then have all: "\<forall>c \<in> set conds. passed tr (ident c)" by (simp add: filter_empty_conv)
    from compile_all_length[OF exit(2)] i have l: "i < length conds" by simp
    with all have "passed tr (ident (conds ! i))" by simp
    with compile_all_nth[OF exit(2) i] show ?thesis by (simp add: passed_iff)
  qed (use ex in simp_all)
  from a b show ?thesis by blast
qed

theorem all_policy_monotone_witness:
  "main (sample_env [Inr [''up'', ''down''], Inr [''down'', ''down''], Inr [''down'', ''up'']])
      (poll_params (Some [''result[0] eq up'', ''result[1] eq up'']) ''all'' 5)
    = ([Dispatch 0 show_version, Eval 0 0 (Inr True), Eval 0 1 (Inr False), Sleep 1,
        Dispatch 1 show_version, Eval 1 1 (Inr False), Sleep 1,
        Dispatch 2 show_version, Eval 2 1 (Inr True)],
       Exit_json \<lparr>changed = False, warnings = [], stdout = [''down'', ''up''],
         stdout_lines = [[''down''], [''up'']]\<rparr>)
   \<and> match (poll_params (Some [''result[0] eq up'', ''result[1] eq up'']) ''all'' 5) = ''all''
   \<and> Eval 1 0 (Inr False) \<notin> set [Eval 0 1 (Inr False), Sleep 1,
        Dispatch 1 show_version, Eval 1 1 (Inr False), Sleep 1,
        Dispatch 2 show_version, Eval 2 1 (Inr True)]
   \<and> (\<exists>n. Eval n 0 (Inr True) \<in> set [Dispatch 0 show_version, Eval 0 0 (Inr True),
          Eval 0 1 (Inr False), Sleep 1, Dispatch 1 show_version, Eval 1 1 (Inr False), Sleep 1,
          Dispatch 2 show_version, Eval 2 1 (Inr True)])
   \<and> (\<exists>n. Eval n 1 (Inr True) \<in> set [Dispatch 0 show_version, Eval 0 0 (Inr True),
          Eval 0 1 (Inr False), Sleep 1, Dispatch 1 show_version, Eval 1 1 (Inr False), Sleep 1,
          Dispatch 2 show_version, Eval 2 1 (Inr True)])"
proof -
  have run: "main (sample_env [Inr [''up'', ''down''], Inr [''down'', ''down''], Inr [''down'', ''up'']])
      (poll_params (Some [''result[0] eq up'', ''result[1] eq up'']) ''all'' 5)
    = ([Dispatch 0 show_version, Eval 0 0 (Inr True), Eval 0 1 (Inr False), Sleep 1,
        Dispatch 1 show_version, Eval 1 1 (Inr False), Sleep 1,
        Dispatch 2 show_version, Eval 2 1 (Inr True)],
       Exit_json \<lparr>changed = False, warnings = [], stdout = [''down'', ''up''],
         stdout_lines = [[''down''], [''up'']]\<rparr>)"
    by code_simp
  have m: "match (poll_params (Some [''result[0] eq up'', ''result[1] eq up'']) ''all'' 5) = ''all''"
    by (simp add: poll_params_def)
  have split: "[Dispatch 0 show_version, Eval 0 0 (Inr True), Eval 0 1 (Inr False), Sleep 1,
        Dispatch 1 show_version, Eval 1 1 (Inr False), Sleep 1,
        Dispatch 2 show_version, Eval 2 1 (Inr True)]
      = [Dispatch 0 show_version] @ Eval 0 0 (Inr True) # [Eval 0 1 (Inr False), Sleep 1,
        Dispatch 1 show_version, Eval 1 1 (Inr False), Sleep 1,
        Dispatch 2 show_version, Eval 2 1 (Inr True)]"
    by simp
  have len: "length (wait_for_or_list
      (poll_params (Some [''result[0] eq up'', ''result[1] eq up'']) ''all'' 5)) = 2"
    by (simp add: wait_for_or_list_def poll_params_def)
  note fact = all_policy_monotone[OF run m]
  from fact[THEN conjunct1, rule_format, OF split, of 1 "Inr False"]
  have a: "Eval 1 0 (Inr False) \<notin> set [Eval 0 1 (Inr False), Sleep 1,
        Dispatch 1 show_version, Eval 1 1 (Inr False), Sleep 1,
        Dispatch 2 show_version, Eval 2 1 (Inr True)]" .
  from fact[THEN conjunct2, rule_format, of 0] len
  have b0: "\<exists>n. Eval n 0 (Inr True) \<in> set [Dispatch 0 show_version, Eval 0 0 (Inr True),
          Eval 0 1 (Inr False), Sleep 1, Dispatch 1 show_version, Eval 1 1 (Inr False), Sleep 1,
          Dispatch 2 show_version, Eval 2 1 (Inr True)]"
    by simp
  from fact[THEN conjunct2, rule_format, of 1] len
  have b1: "\<exists>n. Eval n 1 (Inr True) \<in> set [Dispatch 0 show_version, Eval 0 0 (Inr True),
          Eval 0 1 (Inr False), Sleep 1, Dispatch 1 show_version, Eval 1 1 (Inr False), Sleep 1,
          Dispatch 2 show_version, Eval 2 1 (Inr True)]"
    by simp
  from run m a b0 b1 show ?thesis by blast
qed

section \<open>The failure report\<close>

lemma compile_all_pending:
  assumes "compile_all E 0 es = Inr cs"
  shows "map raw (filter (\<lambda>c. \<not> passed tr (ident c)) cs) = still_pending tr es"
proof -
  from compile_all_length[OF assms] have l: "length cs = length es" .
  have cs: "cs = map (\<lambda>i. cs ! i) [0..<length es]"
    using l map_nth[of cs] by simp
  have "filter (\<lambda>c. \<not> passed tr (ident c)) (map (\<lambda>i. cs ! i) [0..<length es])
      = map (\<lambda>i. cs ! i) (filter (\<lambda>i. \<not> passed tr i) [0..<length es])"
    unfolding filter_map
    by (rule arg_cong[where f="map (\<lambda>i. cs ! i)"], rule filter_cong[OF refl])
       (simp add: compile_all_nth[OF assms])
  then have "map raw (filter (\<lambda>c. \<not> passed tr (ident c)) cs)
      = map raw (map (\<lambda>i. cs ! i) (filter (\<lambda>i. \<not> passed tr i) [0..<length es]))"
    using cs by simp
  also have "\<dots> = still_pending tr es"
    unfolding still_pending_def map_map
    by (rule map_cong[OF refl]) (simp add: compile_all_nth[OF assms])
  finally show ?thesis .
qed

text \<open>
  Conversely to the claim below: \<^verbatim>\<open>fail_json\<close> with \<^verbatim>\<open>failed_conditions\<close> is called only
  with the fixed message and the expressions still pending.
\<close>

lemma fail_json_failed_conditions:
  assumes "main E module = (tr, Fail_json msg (Some fc))"
  shows "msg = unmet_msg \<and> fc \<noteq> [] \<and> fc = still_pending tr (wait_for_or_list module)"
  using assms
proof (cases rule: main_cases)
  case (unmet cmds ws conds conds' resp)
  from poll_loop_pending[OF unmet(3) _ compile_all_distinct[OF unmet(2)]] unmet(4)
  have "conds' = filter (\<lambda>c. \<not> passed tr (ident c)) conds" by simp
  with compile_all_pending[OF unmet(2), of tr] unmet(4,5) show ?thesis by auto
qed simp_all

text \<open>
  Claim C9. When the commands pass \<^verbatim>\<open>parse_commands\<close>, the expressions compile and the
  loop ends, without an exception, with conditions still pending, \<^verbatim>\<open>main\<close> ends with
  \<^verbatim>\<open>fail_json\<close>: the failure message and, as \<^verbatim>\<open>failed_conditions\<close>, the raw expression
  of each conditional still pending, in order. These are exactly the expressions that
  never evaluated true in the run, and there is at least one. No response is reported
  as a success: the outcome is not an \<open>Exit_json\<close>.
\<close>

theorem failure_reports_pending:
  assumes "parse_commands module [] = Inr (cmds, ws)"
    and "compile_all E 0 (wait_for_or_list module) = Inr conds"
    and "poll_loop E module cmds (range_int (retries module)) conds None
           = (tr, Inr (conds', resp))"
    and "conds' \<noteq> []"
  shows "main E module
      = (tr, Fail_json unmet_msg (Some (still_pending tr (wait_for_or_list module))))
    \<and> still_pending tr (wait_for_or_list module) = map raw conds'
    \<and> still_pending tr (wait_for_or_list module) \<noteq> []
    \<and> \<not> is_Exit (snd (main E module))"
proof -
  from poll_loop_pending[OF assms(3) _ compile_all_distinct[OF assms(2)]] assms(4)
  have "conds' = filter (\<lambda>c. \<not> passed tr (ident c)) conds" by simp
  with compile_all_pending[OF assms(2), of tr]
  have sp: "still_pending tr (wait_for_or_list module) = map raw conds'" by simp
  from assms have "main E module = (tr, Fail_json unmet_msg (Some (map raw conds')))"
    by (simp add: main_def)
  with sp assms(4) show ?thesis by simp
qed

theorem failure_reports_pending_witness:
  "parse_commands (poll_params (Some [''result[0] eq up'', ''result[1] eq up'']) ''any'' 2) []
     = Inr (show_version, [])
   \<and> compile_all (sample_env [Inr [''down'', ''down''], Inr [''down'', ''b'']]) 0
       (wait_for_or_list (poll_params (Some [''result[0] eq up'', ''result[1] eq up'']) ''any'' 2))
     = Inr [\<lparr>ident = 0, raw = ''result[0] eq up'', compiled = Eq 0 ''up''\<rparr>,
            \<lparr>ident = 1, raw = ''result[1] eq up'', compiled = Eq 1 ''up''\<rparr>]
   \<and> poll_loop (sample_env [Inr [''down'', ''down''], Inr [''down'', ''b'']])
       (poll_params (Some [''result[0] eq up'', ''result[1] eq up'']) ''any'' 2) show_version
       (range_int (retries (poll_params (Some [''result[0] eq up'', ''result[1] eq up'']) ''any'' 2)))
       [\<lparr>ident = 0, raw = ''result[0] eq up'', compiled = Eq 0 ''up''\<rparr>,
        \<lparr>ident = 1, raw = ''result[1] eq up'', compiled = Eq 1 ''up''\<rparr>] None
     = ([Dispatch 0 show_version, Eval 0 0 (Inr False), Eval 0 1 (Inr False), Sleep 1,
         Dispatch 1 show_version, Eval 1 0 (Inr False), Eval 1 1 (Inr False), Sleep 1],
        Inr ([\<lparr>ident = 0, raw = ''result[0] eq up'', compiled = Eq 0 ''up''\<rparr>,
              \<lparr>ident = 1, raw = ''result[1] eq up'', compiled = Eq 1 ''up''\<rparr>],
             Some [''down'', ''b'']))
   \<and> main (sample_env [Inr [''down'', ''down''], Inr [''down'', ''b'']])
       (poll_params (Some [''result[0] eq up'', ''result[1] eq up'']) ''any'' 2)
     = ([Dispatch 0 show_version, Eval 0 0 (Inr False), Eval 0 1 (Inr False), Sleep 1,
         Dispatch 1 show_version, Eval 1 0 (Inr False), Eval 1 1 (Inr False), Sleep 1],
        Fail_json unmet_msg (Some [''result[0] eq up'', ''result[1] eq up'']))"
proof -
  have a: "parse_commands (poll_params (Some [''result[0] eq up'', ''result[1] eq up'']) ''any'' 2) []
     = Inr (show_version, [])"
    by code_simp
  have b: "compile_all (sample_env [Inr [''down'', ''down''], Inr [''down'', ''b'']]) 0
       (wait_for_or_list (poll_params (Some [''result[0] eq up'', ''result[1] eq up'']) ''any'' 2))
     = Inr [\<lparr>ident = 0, raw = ''result[0] eq up'', compiled = Eq 0 ''up''\<rparr>,
            \<lparr>ident = 1, raw = ''result[1] eq up'', compiled = Eq 1 ''up''\<rparr>]"
    by code_simp
  have c: "poll_loop (sample_env [Inr [''down'', ''down''], Inr [''down'', ''b'']])
       (poll_params (Some [''result[0] eq up'', ''result[1] eq up'']) ''any'' 2) show_version
       (range_int (retries (poll_params (Some [''result[0] eq up'', ''result[1] eq up'']) ''any'' 2)))
       [\<lparr>ident = 0, raw = ''result[0] eq up'', compiled = Eq 0 ''up''\<rparr>,
        \<lparr>ident = 1, raw = ''result[1] eq up'', compiled = Eq 1 ''up''\<rparr>] None
     = ([Dispatch 0 show_version, Eval 0 0 (Inr False), Eval 0 1 (Inr False), Sleep 1,
         Dispatch 1 show_version, Eval 1 0 (Inr False), Eval 1 1 (Inr False), Sleep 1],
        Inr ([\<lparr>ident = 0, raw = ''result[0] eq up'', compiled = Eq 0 ''up''\<rparr>,
              \<lparr>ident = 1, raw = ''result[1] eq up'', compiled = Eq 1 ''up''\<rparr>],
             Some [''down'', ''b'']))"
    by code_simp
  have d: "[\<lparr>ident = 0, raw = ''result[0] eq up'', compiled = Eq 0 ''up''\<rparr>,
            \<lparr>ident = 1, raw = ''result[1] eq up'', compiled = Eq 1 ''up''\<rparr>] \<noteq> []"
    by simp
  from failure_reports_pending[OF a b c d] a b c show ?thesis by simp
qed

end
